theory Spec2Isabelle
  imports Complex_Main "HOL-Library.Word" "HOL-Library.Multiset"
begin

section \<open>Scores: the values of \<open>score_t\<close> and \<open>contin_t\<close>\<close>

text \<open>
  \<open>score_t\<close> and \<open>contin_t\<close> are C++ floating-point types. A finite value is modelled by
  the real number it stands for (rounding and signed zeros are left out); the special
  values that the scorers can produce, the two infinities and NaN, are kept apart, so
  that \<open>log(0.0)\<close>, a division by zero and \<open>0.0 / 0.0\<close> are visible in the model.
\<close>

datatype fval = Fin real | PInf | NInf | NaN

fun fneg :: "fval \<Rightarrow> fval" where
  "fneg (Fin a) = Fin (- a)"
| "fneg PInf = NInf"
| "fneg NInf = PInf"
| "fneg NaN = NaN"

fun fadd :: "fval \<Rightarrow> fval \<Rightarrow> fval" where
  "fadd (Fin a) (Fin b) = Fin (a + b)"
| "fadd NaN _ = NaN"
| "fadd _ NaN = NaN"
| "fadd PInf NInf = NaN"
| "fadd NInf PInf = NaN"
| "fadd PInf _ = PInf"
| "fadd NInf _ = NInf"
| "fadd _ PInf = PInf"
| "fadd _ NInf = NInf"

definition fsub :: "fval \<Rightarrow> fval \<Rightarrow> fval" where
  "fsub a b = fadd a (fneg b)"

text \<open>The sign of a product or quotient with an infinite operand.\<close>

definition signed_inf :: "bool \<Rightarrow> fval" where
  "signed_inf positive = (if positive then PInf else NInf)"

fun fmul :: "fval \<Rightarrow> fval \<Rightarrow> fval" where
  "fmul (Fin a) (Fin b) = Fin (a * b)"
| "fmul NaN _ = NaN"
| "fmul _ NaN = NaN"
| "fmul (Fin a) PInf = (if a = 0 then NaN else signed_inf (0 < a))"
| "fmul (Fin a) NInf = (if a = 0 then NaN else signed_inf (a < 0))"
| "fmul PInf (Fin b) = (if b = 0 then NaN else signed_inf (0 < b))"
| "fmul NInf (Fin b) = (if b = 0 then NaN else signed_inf (b < 0))"
| "fmul PInf PInf = PInf"
| "fmul NInf NInf = PInf"
| "fmul PInf NInf = NInf"
| "fmul NInf PInf = NInf"

fun fdiv :: "fval \<Rightarrow> fval \<Rightarrow> fval" where
  "fdiv (Fin a) (Fin b) =
     (if b \<noteq> 0 then Fin (a / b)
      else if a = 0 then NaN
      else signed_inf (0 < a))"
| "fdiv NaN _ = NaN"
| "fdiv _ NaN = NaN"
| "fdiv (Fin a) _ = Fin 0"
| "fdiv PInf (Fin b) = signed_inf (0 \<le> b)"
| "fdiv NInf (Fin b) = signed_inf (b < 0)"
| "fdiv _ _ = NaN"

fun flog :: "fval \<Rightarrow> fval" where
  "flog (Fin a) = (if 0 < a then Fin (ln a) else if a = 0 then NInf else NaN)"
| "flog PInf = PInf"
| "flog NInf = NaN"
| "flog NaN = NaN"

text \<open>Comparisons: every comparison with NaN is false.\<close>

fun flt :: "fval \<Rightarrow> fval \<Rightarrow> bool" where
  "flt (Fin a) (Fin b) = (a < b)"
| "flt NaN _ = False"
| "flt _ NaN = False"
| "flt NInf NInf = False"
| "flt NInf _ = True"
| "flt PInf _ = False"
| "flt _ PInf = True"
| "flt _ NInf = False"

definition fle :: "fval \<Rightarrow> fval \<Rightarrow> bool" where
  "fle a b = (flt a b \<or> (a = b \<and> a \<noteq> NaN))"

text \<open>
  Where a comparison of the source decides the control flow and its operands are rounded,
  the rounding is a function on the reals. \<open>float_round\<close> is the rounding of the C++ type
  \<open>float\<close> (IEEE 754 binary32, round to nearest, ties to even): 24 significant bits, the
  smallest exponent of a normal number is -126; overflow to infinity is left out.
\<close>

definition round_nearest_even :: "real \<Rightarrow> int" where
  "round_nearest_even r =
     (let f = \<lfloor>r\<rfloor>; d = r - of_int f
      in if d < 1/2 then f else if 1/2 < d then f + 1 else if even f then f else f + 1)"

definition float_round :: "real \<Rightarrow> real" where
  "float_round x =
     (if x = 0 then 0
      else let e = max \<lfloor>log 2 \<bar>x\<bar>\<rfloor> (- 126);
               ulp = 2 powr (of_int e - 23)
           in ulp * of_int (round_nearest_even (x / ulp)))"

section \<open>The complexity coefficient\<close>

record bscore_base =
  occam :: bool
  complexity_coef :: fval

text \<open>\<open>discrete_complexity_coef\<close>: \<open>-log((double)alphabet_size) / log(p/(1-p))\<close>.\<close>

definition discrete_complexity_coef :: "nat \<Rightarrow> real \<Rightarrow> fval" where
  "discrete_complexity_coef alphabet_size p =
     fdiv (fneg (flog (Fin (real alphabet_size))))
          (flog (fdiv (Fin p) (fsub (Fin 1) (Fin p))))"

text \<open>\<open>bscore_base::set_complexity_coef(unsigned alphabet_size, float p)\<close>; the logging
  is left out.\<close>

definition set_complexity_coef :: "nat \<Rightarrow> real \<Rightarrow> 'a bscore_base_scheme \<Rightarrow> 'a bscore_base_scheme" where
  "set_complexity_coef alphabet_size p s =
     (let s1 = s\<lparr>complexity_coef := Fin 0\<rparr>;
          s2 = s1\<lparr>occam := (0 < p \<and> p < 1/2)\<rparr>
      in if occam s2
         then s2\<lparr>complexity_coef := discrete_complexity_coef alphabet_size p\<rparr>
         else s2)"

section \<open>Programs and tables\<close>

text \<open>
  A vertex of a candidate program: the constants and operators that the scorers look at,
  arguments (a negative index is the negated argument), continuous constants and enum
  constants.
\<close>

datatype vertex =
    logical_true | logical_false | logical_and | logical_or | cond
  | argument int | contin real | enum_t string

type_synonym vertex_seq = "vertex list"

datatype combo_tree = Node vertex "combo_tree list"

fun root :: "combo_tree \<Rightarrow> vertex" where
  "root (Node v ts) = v"

fun children :: "combo_tree \<Rightarrow> combo_tree list" where
  "children (Node v ts) = ts"

fun is_enum_type :: "vertex \<Rightarrow> bool" where
  "is_enum_type (enum_t s) = True"
| "is_enum_type _ = False"

text \<open>
  \<open>CTable::counter_t\<close> maps an output value to the number of times it was observed;
  it is kept as the list of its entries in key order. The type signature of a table fixes
  the type of its outputs, which is the parameter \<open>'o\<close> here: \<open>bool\<close> for a boolean
  table, \<open>real\<close> for a continuous one, \<open>string\<close> for an enum table. A compressed
  table is the list of its rows, in key order: an input vector and the counter of the
  outputs seen for it.
\<close>

type_synonym 'o counter_t = "('o \<times> nat) list"

type_synonym 'o CTable = "(vertex_seq \<times> 'o counter_t) list"

definition get :: "'o counter_t \<Rightarrow> 'o \<Rightarrow> nat" where
  "get c v = (case map_of c v of Some n \<Rightarrow> n | None \<Rightarrow> 0)"

definition total_count :: "'o counter_t \<Rightarrow> nat" where
  "total_count c = sum_list (map snd c)"

text \<open>Modelled from the spec: \<open>CTable::uncompressed_size\<close> is not part of the source
  file; the compressed table merges the raw rows with the same inputs, so the uncompressed
  size is the sum of the counts of all rows.\<close>

definition uncompressed_size :: "'o CTable \<Rightarrow> nat" where
  "uncompressed_size ct = sum_list (map (\<lambda>(vs, c). total_count c) ct)"

section \<open>\<open>enum_table_bscore::best_possible_bscore\<close>\<close>

text \<open>
  The counts are \<open>unsigned\<close> in the source (\<open>unsigned most\<close>,
  \<open>unsigned total = c.total_count()\<close>), so the difference \<open>most - c.total_count()\<close>
  is taken in 32-bit unsigned arithmetic, which wraps around, before it is converted to
  \<open>score_t\<close>.
\<close>

definition unsigned_minus :: "nat \<Rightarrow> nat \<Rightarrow> nat" where
  "unsigned_minus a b = unat ((word_of_nat a :: 32 word) - word_of_nat b)"

text \<open>Likewise \<open>active += totalc\<close> on an \<open>unsigned\<close> counter wraps around.\<close>

definition unsigned_plus :: "nat \<Rightarrow> nat \<Rightarrow> nat" where
  "unsigned_plus a b = unat ((word_of_nat a :: 32 word) + word_of_nat b)"

text \<open>The loop \<open>if (most < it->second) most = it->second\<close> over the entries of a counter.\<close>

fun most_loop :: "nat \<Rightarrow> 'o counter_t \<Rightarrow> nat" where
  "most_loop most [] = most"
| "most_loop most ((v, n) # c) = most_loop (if most < n then n else most) c"

definition best_possible_row :: "'o counter_t \<Rightarrow> real" where
  "best_possible_row c = real (unsigned_minus (most_loop 0 c) (total_count c))"

definition enum_table_best_possible_bscore :: "'o CTable \<Rightarrow> real list" where
  "enum_table_best_possible_bscore ctable = map (\<lambda>(vs, c). best_possible_row c) ctable"

section \<open>\<open>enum_graded_bscore::graded_complexity\<close>\<close>

text \<open>
  The children of a \<open>cond\<close> node are \<open>p\<^sub>0, c\<^sub>0, p\<^sub>1, c\<^sub>1, \<dots>, e\<close>: predicates and
  consequents in turn, then the else clause, an enum constant. The loop adds the weighted
  complexity of the current predicate, stops at an enum constant, and otherwise moves two
  siblings on and divides the weight by \<open>grading\<close>. Moving past the last sibling is
  undefined in the source; the model returns \<open>None\<close> there. \<open>tree_complexity\<close> is not
  part of the source file and is a parameter.
\<close>

fun graded_complexity_loop ::
  "(combo_tree \<Rightarrow> int) \<Rightarrow> real \<Rightarrow> fval \<Rightarrow> fval \<Rightarrow> combo_tree list \<Rightarrow> fval option" where
  "graded_complexity_loop tree_complexity grading weight cpxy [] = None"
| "graded_complexity_loop tree_complexity grading weight cpxy [predicate] =
     (let cpxy = fadd cpxy (fmul weight (Fin (real_of_int (tree_complexity predicate))))
      in if is_enum_type (root predicate) then Some cpxy else None)"
| "graded_complexity_loop tree_complexity grading weight cpxy (predicate # consequent # rest) =
     (let cpxy = fadd cpxy (fmul weight (Fin (real_of_int (tree_complexity predicate))))
      in if is_enum_type (root predicate) then Some cpxy
         else graded_complexity_loop tree_complexity grading
                (fdiv weight (Fin grading)) cpxy rest)"

definition graded_complexity :: "(combo_tree \<Rightarrow> int) \<Rightarrow> real \<Rightarrow> combo_tree \<Rightarrow> fval option" where
  "graded_complexity tree_complexity grading it =
     graded_complexity_loop tree_complexity grading (Fin 1) (Fin 0) (children it)"

text \<open>A cond chain, given by its branches (predicate and consequent) and its else clause.\<close>

definition cond_chain :: "(combo_tree \<times> combo_tree) list \<Rightarrow> combo_tree \<Rightarrow> combo_tree" where
  "cond_chain branches e = Node cond (concat (map (\<lambda>(p, c). [p, c]) branches) @ [e])"

text \<open>
  The weighted sum as the specification words it: the predicate of branch \<open>i\<close> is
  weighted by \<open>grading ^ i\<close>, and so is the else clause after the last branch.
\<close>

definition spec_graded_complexity ::
  "(combo_tree \<Rightarrow> int) \<Rightarrow> real \<Rightarrow> (combo_tree \<times> combo_tree) list \<Rightarrow> combo_tree \<Rightarrow> real" where
  "spec_graded_complexity tree_complexity grading branches e =
     (\<Sum>i < length branches. grading ^ i * real_of_int (tree_complexity (fst (branches ! i))))
     + grading ^ length branches * real_of_int (tree_complexity e)"

text \<open>The sum that the loop computes: branch \<open>i\<close> is weighted by \<open>(1 / grading) ^ i\<close>.\<close>

definition retrograded_complexity ::
  "(combo_tree \<Rightarrow> int) \<Rightarrow> real \<Rightarrow> (combo_tree \<times> combo_tree) list \<Rightarrow> combo_tree \<Rightarrow> real" where
  "retrograded_complexity tree_complexity grading branches e =
     (\<Sum>i < length branches. (1 / grading) ^ i * real_of_int (tree_complexity (fst (branches ! i))))
     + (1 / grading) ^ length branches * real_of_int (tree_complexity e)"

text \<open>A sample complexity measure for concrete evaluations: the number of vertices.\<close>

fun vertex_count :: "combo_tree \<Rightarrow> int" where
  "vertex_count (Node v ts) = 1 + sum_list (map vertex_count ts)"

section \<open>\<open>discretize_contin_bscore::class_idx\<close>\<close>

text \<open>
  \<open>class_idx_within\<close> is a binary search on the indices \<open>l_idx < u_idx\<close>. The indices
  are \<open>size_t\<close>: for \<open>u_idx \<le> l_idx\<close> the difference wraps around or is zero, and the
  recursion then reads outside the vector or never reaches its base case, as does a read
  of \<open>thresholds[m_idx - 1]\<close> beyond the end; the model returns \<open>None\<close> in these cases.
\<close>

function class_idx_within :: "real list \<Rightarrow> real \<Rightarrow> nat \<Rightarrow> nat \<Rightarrow> nat option" where
  "class_idx_within thresholds v l_idx u_idx =
     (if u_idx \<le> l_idx then None
      else if u_idx - l_idx = 1 then Some l_idx
      else let m_idx = l_idx + (u_idx - l_idx) div 2
           in if length thresholds \<le> m_idx - 1 then None
              else let t = thresholds ! (m_idx - 1)
                   in if v < t then class_idx_within thresholds v l_idx m_idx
                      else class_idx_within thresholds v m_idx u_idx)"
  by pat_completeness auto
termination
  by (relation "measure (\<lambda>(thresholds, v, l_idx, u_idx). u_idx - l_idx)")
     (auto, presburger)

declare class_idx_within.simps [simp del]

text \<open>\<open>thresholds[0]\<close> of an empty vector is an out-of-range read: \<open>None\<close>.\<close>

definition class_idx :: "real list \<Rightarrow> real \<Rightarrow> nat option" where
  "class_idx thresholds v =
     (if thresholds = [] then None
      else if v < thresholds ! 0 then Some 0
      else let s = length thresholds
           in if v \<ge> thresholds ! (s - 1) then Some s
              else class_idx_within thresholds v 1 s)"

text \<open>
  The bucket of the specification, by a linear scan from the left: the number of leading
  thresholds that are at most \<open>v\<close>.
\<close>

definition linear_scan_idx :: "real list \<Rightarrow> real \<Rightarrow> nat" where
  "linear_scan_idx thresholds v = length (takeWhile (\<lambda>t. t \<le> v) thresholds)"

section \<open>The discriminator and the discriminating scorers\<close>

datatype error = Assertion_failed

datatype type_node = boolean_type | contin_type

text \<open>
  The candidate is evaluated by \<open>eval_binding\<close> and measured by \<open>tree_complexity\<close>;
  neither is part of the source file, and the scorers take them as the parameters
  \<open>ev\<close> and \<open>tc\<close>.
\<close>

type_synonym evaluator = "vertex_seq \<Rightarrow> combo_tree \<Rightarrow> vertex"

type_synonym penalized_behavioral_score = "fval list \<times> fval"

text \<open>
  The state of a \<open>discriminating_bscore\<close>: the fields of \<open>bscore_base\<close>, of
  \<open>discriminator\<close> and its own. \<open>sum_outputs\<close> is the function object that the
  constructor of \<open>discriminator\<close> chooses by the output type of the table.
\<close>

record 'o discriminating_bscore = bscore_base +
  d_ctable :: "'o CTable"
  d_output_type :: type_node
  d_sum_outputs :: "'o counter_t \<Rightarrow> real"
  positive_total :: real
  negative_total :: real
  d_ctable_usize :: nat
  min_threshold :: real
  max_threshold :: real
  hardness :: real
  d_max_output :: real
  d_min_output :: real

text \<open>The two function objects of the constructor of \<open>discriminator\<close>.\<close>

definition sum_outputs_boolean :: "bool counter_t \<Rightarrow> real" where
  "sum_outputs_boolean c = real (get c True)"

definition sum_outputs_contin :: "real counter_t \<Rightarrow> real" where
  "sum_outputs_contin c = foldl (\<lambda>res (v, n). res + v * real n) 0 c"

text \<open>The loop of the constructor of \<open>discriminator\<close> that adds up the totals.\<close>

fun totals_loop ::
  "type_node \<Rightarrow> ('o counter_t \<Rightarrow> real) \<Rightarrow> real \<times> real \<Rightarrow> 'o CTable \<Rightarrow> real \<times> real" where
  "totals_loop ty so (pos, neg) [] = (pos, neg)"
| "totals_loop ty so (pos, neg) ((vs, c) # rest) =
     (let sum_pos = so c;
          totalc = total_count c;
          sum_neg = (if ty = boolean_type then real totalc - sum_pos else - sum_pos)
      in totals_loop ty so (pos + sum_pos, neg + sum_neg) rest)"

text \<open>
  The constructor of \<open>discriminating_bscore\<close>, for a boolean and for a continuous table
  (any other output type fails the assertion of \<open>discriminator\<close>, and has no
  constructor here). \<open>worst_score\<close> is a constant of the scoring headers.
\<close>

definition discriminating_bscore_boolean ::
  "bool CTable \<Rightarrow> real \<Rightarrow> real \<Rightarrow> real \<Rightarrow> error + bool discriminating_bscore" where
  "discriminating_bscore_boolean ct min_thr max_thr hard =
     (let (pos, neg) = totals_loop boolean_type sum_outputs_boolean (0, 0) ct
      in if \<not> (0 < hard \<and> 0 < min_thr \<and> min_thr \<le> max_thr) then Inl Assertion_failed
         else Inr \<lparr>occam = False, complexity_coef = Fin 0,
                   d_ctable = ct, d_output_type = boolean_type,
                   d_sum_outputs = sum_outputs_boolean,
                   positive_total = pos, negative_total = neg,
                   d_ctable_usize = uncompressed_size ct,
                   min_threshold = min_thr, max_threshold = max_thr, hardness = hard,
                   d_max_output = 1, d_min_output = 0\<rparr>)"

definition discriminating_bscore_contin ::
  "real \<Rightarrow> real CTable \<Rightarrow> real \<Rightarrow> real \<Rightarrow> real \<Rightarrow> error + real discriminating_bscore" where
  "discriminating_bscore_contin worst_score ct min_thr max_thr hard =
     (let (pos, neg) = totals_loop contin_type sum_outputs_contin (0, 0) ct;
          vals = concat (map (\<lambda>(vs, c). map fst c) ct)
      in if \<not> (0 < hard \<and> 0 < min_thr \<and> min_thr \<le> max_thr) then Inl Assertion_failed
         else Inr \<lparr>occam = False, complexity_coef = Fin 0,
                   d_ctable = ct, d_output_type = contin_type,
                   d_sum_outputs = sum_outputs_contin,
                   positive_total = pos, negative_total = neg,
                   d_ctable_usize = uncompressed_size ct,
                   min_threshold = min_thr, max_threshold = max_thr, hardness = hard,
                   d_max_output = foldl max worst_score vals,
                   d_min_output = foldl min (- worst_score) vals\<rparr>)"

record d_counts =
  true_positive_sum :: real
  false_positive_sum :: real
  positive_count :: real
  true_negative_sum :: real
  false_negative_sum :: real
  negative_count :: real

definition d_counts_init :: d_counts where
  "d_counts_init = \<lparr>true_positive_sum = 0, false_positive_sum = 0, positive_count = 0,
                    true_negative_sum = 0, false_negative_sum = 0, negative_count = 0\<rparr>"

text \<open>\<open>discriminator::count\<close>: the loop over the rows of the table.\<close>

fun count_loop ::
  "evaluator \<Rightarrow> type_node \<Rightarrow> ('o counter_t \<Rightarrow> real) \<Rightarrow> combo_tree \<Rightarrow> d_counts \<Rightarrow> 'o CTable
   \<Rightarrow> d_counts" where
  "count_loop ev ty so tr ctr [] = ctr"
| "count_loop ev ty so tr ctr ((vs, c) # rest) =
     (let sum_pos = so c;
          totalc = total_count c;
          sum_neg = (if ty = boolean_type then real totalc - sum_pos else - sum_pos)
      in count_loop ev ty so tr
           (if ev vs tr = logical_true
            then ctr\<lparr>true_positive_sum := true_positive_sum ctr + sum_pos,
                     false_positive_sum := false_positive_sum ctr + sum_neg,
                     positive_count := positive_count ctr + real totalc\<rparr>
            else ctr\<lparr>true_negative_sum := true_negative_sum ctr + sum_neg,
                     false_negative_sum := false_negative_sum ctr + sum_pos,
                     negative_count := negative_count ctr + real totalc\<rparr>)
           rest)"

definition count :: "evaluator \<Rightarrow> ('o, 'a) discriminating_bscore_scheme \<Rightarrow> combo_tree \<Rightarrow> d_counts" where
  "count ev s tr = count_loop ev (d_output_type s) (d_sum_outputs s) tr d_counts_init (d_ctable s)"

text \<open>\<open>discriminating_bscore::get_threshold_penalty\<close>.\<close>

definition get_threshold_penalty :: "('o, 'a) discriminating_bscore_scheme \<Rightarrow> fval \<Rightarrow> fval" where
  "get_threshold_penalty s val =
     (let dst = Fin 0;
          dst = (if flt val (Fin (min_threshold s))
                 then fsub (Fin 1) (fdiv val (Fin (min_threshold s)))
                 else dst);
          dst = (if flt (Fin (max_threshold s)) val
                 then fdiv (fsub val (Fin (max_threshold s)))
                           (fsub (Fin 1) (Fin (max_threshold s)))
                 else dst)
      in fmul (Fin (hardness s)) (flog (fsub (Fin 1) dst)))"

text \<open>
  The two quotients that \<open>recall_bscore::operator()\<close> and \<open>prerec_bscore::operator()\<close>
  both compute from the counts:
  \<open>true_positive_sum / (true_positive_sum + false_positive_sum)\<close> and
  \<open>true_positive_sum / (true_positive_sum + false_negative_sum)\<close>.
\<close>

definition precision_of :: "d_counts \<Rightarrow> fval" where
  "precision_of ctr =
     fdiv (Fin (true_positive_sum ctr)) (Fin (true_positive_sum ctr + false_positive_sum ctr))"

definition recall_of :: "d_counts \<Rightarrow> fval" where
  "recall_of ctr =
     fdiv (Fin (true_positive_sum ctr)) (Fin (true_positive_sum ctr + false_negative_sum ctr))"

text \<open>The complexity penalty \<open>tree_complexity(tr) * complexity_coef\<close>, added when
  \<open>occam\<close> is set; the second component of the score is 0 otherwise.\<close>

definition complexity_penalty :: "(combo_tree \<Rightarrow> int) \<Rightarrow> 'a bscore_base_scheme \<Rightarrow> combo_tree \<Rightarrow> fval" where
  "complexity_penalty tc s tr =
     (if occam s then fmul (Fin (real_of_int (tc tr))) (complexity_coef s) else Fin 0)"

definition recall_bscore_operator ::
  "evaluator \<Rightarrow> (combo_tree \<Rightarrow> int) \<Rightarrow> ('o, 'a) discriminating_bscore_scheme \<Rightarrow> combo_tree
   \<Rightarrow> penalized_behavioral_score" where
  "recall_bscore_operator ev tc s tr =
     (let ctr = count ev s tr;
          precision = precision_of ctr;
          recall = recall_of ctr;
          precision_penalty = get_threshold_penalty s precision
      in ([recall, precision_penalty], complexity_penalty tc s tr))"

definition prerec_bscore_operator ::
  "evaluator \<Rightarrow> (combo_tree \<Rightarrow> int) \<Rightarrow> ('o, 'a) discriminating_bscore_scheme \<Rightarrow> combo_tree
   \<Rightarrow> penalized_behavioral_score" where
  "prerec_bscore_operator ev tc s tr =
     (let ctr = count ev s tr;
          precision = precision_of ctr;
          recall = recall_of ctr;
          recall_penalty = get_threshold_penalty s recall
      in ([precision, recall_penalty], complexity_penalty tc s tr))"

section \<open>\<open>precision_bscore\<close>\<close>

record 'o precision_bscore = bscore_base +
  ctable :: "'o CTable"
  ctable_usize :: nat
  min_activation :: real
  max_activation :: real
  penalty :: real
  positive :: bool
  worst_norm :: bool
  output_type :: type_node
  sum_outputs :: "'o counter_t \<Rightarrow> real"
  max_output :: real

text \<open>
  The constructor, for a boolean table (\<open>sum_outputs\<close> counts the target value
  \<open>bool_to_vertex(positive)\<close>, the highest output is 1) and for a continuous table
  (\<open>sum_outputs\<close> is the signed sum of the row, the highest output is searched in the
  table). Any other output type fails the first assertion and has no constructor here.
\<close>

definition precision_bscore_boolean ::
  "bool CTable \<Rightarrow> real \<Rightarrow> real \<Rightarrow> real \<Rightarrow> bool \<Rightarrow> bool \<Rightarrow> error + bool precision_bscore" where
  "precision_bscore_boolean ct pen min_act max_act pos wn =
     (if \<not> (0 < pen \<and> 0 < min_act \<and> min_act \<le> max_act) then Inl Assertion_failed
      else Inr \<lparr>occam = False, complexity_coef = Fin 0,
                ctable = ct, ctable_usize = uncompressed_size ct,
                min_activation = min_act, max_activation = max_act,
                penalty = pen, positive = pos, worst_norm = wn,
                output_type = boolean_type,
                sum_outputs = (\<lambda>c. real (get c pos)),
                max_output = 1\<rparr>)"

definition precision_bscore_contin ::
  "real \<Rightarrow> real CTable \<Rightarrow> real \<Rightarrow> real \<Rightarrow> real \<Rightarrow> bool \<Rightarrow> bool \<Rightarrow> error + real precision_bscore" where
  "precision_bscore_contin worst_score ct pen min_act max_act pos wn =
     (if \<not> (0 < pen \<and> 0 < min_act \<and> min_act \<le> max_act) then Inl Assertion_failed
      else Inr \<lparr>occam = False, complexity_coef = Fin 0,
                ctable = ct, ctable_usize = uncompressed_size ct,
                min_activation = min_act, max_activation = max_act,
                penalty = pen, positive = pos, worst_norm = wn,
                output_type = contin_type,
                sum_outputs = (\<lambda>c. let res = foldl (\<lambda>res (v, n). res + v * real n) 0 c
                                    in if pos then res else - res),
                max_output = foldl max worst_score
                   (map (\<lambda>val. if \<not> pos then - val else val)
                        (concat (map (\<lambda>(vs, c). map fst c) ct)))\<rparr>)"

text \<open>
  A \<open>std::multimap\<close> is the list of its entries in key order; \<open>insert\<close> puts a new
  entry after the entries with the same key.
\<close>

fun multimap_insert :: "real \<Rightarrow> 'v \<Rightarrow> (real \<times> 'v) list \<Rightarrow> (real \<times> 'v) list" where
  "multimap_insert k v [] = [(k, v)]"
| "multimap_insert k v ((k', v') # m) =
     (if k < k' then (k, v) # (k', v') # m else (k', v') # multimap_insert k v m)"

text \<open>
  The first loop of \<open>precision_bscore::operator()\<close>: the total number of active outputs
  (an \<open>unsigned\<close> counter), the sum of all active outputs, and the rows with a negative
  sum, kept for the normalisation by the worst deciles.
\<close>

fun active_loop ::
  "evaluator \<Rightarrow> ('o, 'a) precision_bscore_scheme \<Rightarrow> combo_tree
   \<Rightarrow> nat \<times> real \<times> (real \<times> nat) list \<Rightarrow> 'o CTable \<Rightarrow> nat \<times> real \<times> (real \<times> nat) list" where
  "active_loop ev s tr (active, sao, worst_deciles) [] = (active, sao, worst_deciles)"
| "active_loop ev s tr (active, sao, worst_deciles) ((vs, c) # rest) =
     (if ev vs tr = logical_true
      then let sumo = sum_outputs s c;
               totalc = total_count c
           in active_loop ev s tr
                (unsigned_plus active totalc, sao + sumo,
                 if worst_norm s \<and> sumo < 0 then multimap_insert sumo totalc worst_deciles
                 else worst_deciles)
                rest
      else active_loop ev s tr (active, sao, worst_deciles) rest)"

text \<open>The loop over the worst deciles, left as soon as more than \<open>n_deciles\<close>
  observations are collected.\<close>

fun worst_loop :: "nat \<Rightarrow> nat \<times> real \<Rightarrow> (real \<times> nat) list \<Rightarrow> nat \<times> real" where
  "worst_loop n_deciles (worst_count, avg) [] = (worst_count, avg)"
| "worst_loop n_deciles (worst_count, avg) ((sumo, totalc) # rest) =
     (let worst_count = worst_count + totalc;
          avg = avg + sumo
      in if worst_count > n_deciles then (worst_count, avg)
         else worst_loop n_deciles (worst_count, avg) rest)"

text \<open>\<open>precision_bscore::get_activation_penalty\<close>.\<close>

definition get_activation_penalty :: "('o, 'a) precision_bscore_scheme \<Rightarrow> fval \<Rightarrow> fval" where
  "get_activation_penalty s activation =
     (let dst = Fin 0;
          dst = (if flt activation (Fin (min_activation s))
                 then fsub (Fin 1) (fdiv activation (Fin (min_activation s)))
                 else dst);
          dst = (if flt (Fin (max_activation s)) activation
                 then fdiv (fsub activation (Fin (max_activation s)))
                           (fsub (Fin 1) (Fin (max_activation s)))
                 else dst)
      in fmul (Fin (penalty s)) (flog (fsub (Fin 1) dst)))"

text \<open>The precision that \<open>precision_bscore::operator()\<close> pushes as the first component.\<close>

definition precision_component ::
  "evaluator \<Rightarrow> ('o, 'a) precision_bscore_scheme \<Rightarrow> combo_tree \<Rightarrow> fval" where
  "precision_component ev s tr =
     (let (active, sao, worst_deciles) = active_loop ev s tr (0, 0, []) (ctable s);
          avg_worst_deciles =
            (if worst_norm s \<and> sao > 0
             then let n_deciles = active div 10;
                      (worst_count, avg) = worst_loop n_deciles (0, 0) worst_deciles
                  in fdiv (Fin avg) (Fin (real worst_count))
             else Fin 0);
          precision = Fin 1;
          precision = (if 0 < active
                       then fdiv (fdiv (Fin sao) (Fin (real active))) (Fin (max_output s))
                       else precision);
          precision = (if flt avg_worst_deciles (Fin 0)
                       then fdiv precision (fneg avg_worst_deciles)
                       else precision)
      in precision)"

definition precision_bscore_operator ::
  "evaluator \<Rightarrow> (combo_tree \<Rightarrow> int) \<Rightarrow> ('o, 'a) precision_bscore_scheme \<Rightarrow> combo_tree
   \<Rightarrow> penalized_behavioral_score" where
  "precision_bscore_operator ev tc s tr =
     (let (active, sao, worst_deciles) = active_loop ev s tr (0, 0, []) (ctable s);
          precision = precision_component ev s tr;
          activation = fdiv (Fin (real active)) (Fin (real (ctable_usize s)));
          activation_penalty = get_activation_penalty s activation
      in ([precision, activation_penalty], complexity_penalty tc s tr))"

subsection \<open>\<open>gen_canonical_best_candidate\<close>\<close>

text \<open>
  The rows are entered into a multimap by their precision \<open>sum_outputs(c) / total\<close>.
  A row with a total count of 0 has the key \<open>0.0 / 0\<close>, which is NaN and has no place in
  the order of the multimap; the model returns \<open>None\<close> for such a table.
\<close>

fun ptc_loop ::
  "('o counter_t \<Rightarrow> real) \<Rightarrow> (real \<times> vertex_seq \<times> nat) list \<Rightarrow> 'o CTable
   \<Rightarrow> (real \<times> vertex_seq \<times> nat) list option" where
  "ptc_loop so ptc [] = Some ptc"
| "ptc_loop so ptc ((vs, c) # rest) =
     (let totalc = total_count c
      in if totalc = 0 then None
         else ptc_loop so (multimap_insert (so c / real totalc) (vs, totalc) ptc) rest)"

text \<open>The literals of a clause: argument \<open>idx\<close> for an input that is true, argument
  \<open>-idx\<close> otherwise, with \<open>idx\<close> counting from 1.\<close>

fun literals :: "int \<Rightarrow> vertex_seq \<Rightarrow> combo_tree list" where
  "literals idx [] = []"
| "literals idx (input # rest) =
     Node (argument (if input = logical_true then idx else - idx)) [] # literals (idx + 1) rest"

text \<open>
  The loop over the rows by descending precision: one conjunctive clause per row, until
  the minimum activation is reached. The test \<open>ctable_usize * min_activation <= active\<close>
  multiplies an \<open>unsigned\<close> by a floating-point number and compares the product with an
  \<open>unsigned\<close>: both integers are converted to the floating-point type and the product is
  rounded to it. The type of the member \<open>min_activation\<close> is declared in the header, which
  is not part of the source file, so its rounding is the parameter \<open>rnd\<close>; the
  constructor takes the bound as \<open>float min_activation_\<close>, for which \<open>rnd\<close> is
  \<open>float_round\<close>. \<open>active\<close> is an \<open>unsigned\<close> counter.
\<close>

definition activation_reached :: "(real \<Rightarrow> real) \<Rightarrow> nat \<Rightarrow> real \<Rightarrow> nat \<Rightarrow> bool" where
  "activation_reached rnd usize min_act active =
     (rnd (rnd (real usize) * min_act) \<le> rnd (real active))"

fun clause_loop ::
  "(real \<Rightarrow> real) \<Rightarrow> nat \<Rightarrow> real \<Rightarrow> nat \<Rightarrow> combo_tree list
   \<Rightarrow> (real \<times> vertex_seq \<times> nat) list \<Rightarrow> combo_tree list" where
  "clause_loop rnd usize min_act active clauses [] = clauses"
| "clause_loop rnd usize min_act active clauses ((precision, vs, totalc) # rest) =
     (let active = unsigned_plus active totalc;
          clauses = clauses @ [Node logical_and (literals 1 vs)]
      in if activation_reached rnd usize min_act active then clauses
         else clause_loop rnd usize min_act active clauses rest)"

definition gen_canonical_best_candidate ::
  "(real \<Rightarrow> real) \<Rightarrow> ('o, 'a) precision_bscore_scheme \<Rightarrow> combo_tree option" where
  "gen_canonical_best_candidate rnd s =
     (case ptc_loop (sum_outputs s) [] (ctable s) of
        None \<Rightarrow> None
      | Some ptc \<Rightarrow>
          Some (Node logical_or
                  (clause_loop rnd (ctable_usize s) (min_activation s) 0 [] (rev ptc))))"

text \<open>Modelled from the spec: the evaluator is not part of the source file. A candidate
  built from disjunction, conjunction and literals is evaluated on an input vector in the
  usual way: a positive argument reads the input of that index, a negative one its
  negation; a read outside the input vector has no value (\<open>None\<close>).\<close>

fun negate_vertex :: "vertex \<Rightarrow> vertex option" where
  "negate_vertex logical_true = Some logical_false"
| "negate_vertex logical_false = Some logical_true"
| "negate_vertex _ = None"

fun eval_formula :: "vertex_seq \<Rightarrow> combo_tree \<Rightarrow> vertex option" where
  "eval_formula vs (Node v ts) =
     (if v = logical_or then
        (let rs = map (eval_formula vs) ts
         in if None \<in> set rs then None
            else Some (if Some logical_true \<in> set rs then logical_true else logical_false))
      else if v = logical_and then
        (let rs = map (eval_formula vs) ts
         in if None \<in> set rs then None
            else Some (if \<forall>r \<in> set rs. r = Some logical_true then logical_true else logical_false))
      else case v of
        argument i \<Rightarrow>
          (if 0 < i \<and> nat i \<le> length vs then Some (vs ! (nat i - 1))
           else if i < 0 \<and> nat (- i) \<le> length vs then negate_vertex (vs ! (nat (- i) - 1))
           else None)
      | _ \<Rightarrow> Some v)"

text \<open>The evaluator as the scorers take it; a candidate without a value is not true.\<close>

definition eval_binding :: evaluator where
  "eval_binding vs tr = (case eval_formula vs tr of Some v \<Rightarrow> v | None \<Rightarrow> logical_false)"

text \<open>The clause that the loop builds for an entry of the multimap, and the inputs that
  the literals are made for: vectors of booleans.\<close>

definition clause_of :: "real \<times> vertex_seq \<times> nat \<Rightarrow> combo_tree" where
  "clause_of e = Node logical_and (literals 1 (fst (snd e)))"

definition boolean_inputs :: "vertex_seq \<Rightarrow> bool" where
  "boolean_inputs vs = (\<forall>v \<in> set vs. v = logical_true \<or> v = logical_false)"

section \<open>\<open>interesting_predicate_bscore\<close>\<close>

text \<open>
  \<open>counter_t\<close> of this scorer is a \<open>std::map\<close> from an observed value to its number of
  occurrences: the list of its entries in key order. \<open>m[k] = n\<close> overwrites the entry of
  \<open>k\<close> or inserts it; \<open>m[k] += n\<close> adds to the entry of \<open>k\<close>, which starts at 0.
\<close>

type_synonym histogram = "(real \<times> nat) list"

fun map_assign :: "real \<Rightarrow> nat \<Rightarrow> histogram \<Rightarrow> histogram" where
  "map_assign k n [] = [(k, n)]"
| "map_assign k n ((k', n') # m) =
     (if k = k' then (k, n) # m
      else if k < k' then (k, n) # (k', n') # m
      else (k', n') # map_assign k n m)"

fun map_add_assign :: "real \<Rightarrow> nat \<Rightarrow> histogram \<Rightarrow> histogram" where
  "map_add_assign k n [] = [(k, n)]"
| "map_add_assign k n ((k', n') # m) =
     (if k = k' then (k, n' + n) # m
      else if k < k' then (k, n) # (k', n') # m
      else (k', n') # map_add_assign k n m)"

definition lookup :: "histogram \<Rightarrow> real \<Rightarrow> nat" where
  "lookup m k = (case map_of m k of Some n \<Rightarrow> n | None \<Rightarrow> 0)"

text \<open>
  The statistics come from other files (\<open>KLD.h\<close>, \<open>MannWhitneyU.h\<close>, the accumulators)
  and \<open>pow\<close> from the C library; \<open>worst_score\<close> is a constant of the scoring headers.
  They are parameters of the scorer here.
\<close>

record collaborators =
  klds :: "histogram \<Rightarrow> histogram \<Rightarrow> fval"
  klds_decomposed :: "histogram \<Rightarrow> histogram \<Rightarrow> fval list"
  weighted_skewness :: "histogram \<Rightarrow> fval"
  standardizedMannWhitneyU :: "histogram \<Rightarrow> histogram \<Rightarrow> fval"
  pow :: "fval \<Rightarrow> fval \<Rightarrow> fval"
  worst_score :: real

record interesting_predicate_bscore = bscore_base +
  ip_ctable :: "real CTable"
  kld_w :: real
  skewness_w :: real
  abs_skewness :: bool
  stdU_w :: real
  skew_U_w :: real
  ip_min_activation :: real
  ip_max_activation :: real
  ip_penalty :: real
  ip_positive :: bool
  decompose_kld :: bool
  counter :: histogram
  pdf :: histogram
  skewness :: fval

text \<open>The constructor accumulates the unconditioned histogram over all rows:
  \<open>counter[get_contin(v.first)] += v.second\<close>.\<close>

definition accumulate_row :: "real counter_t \<Rightarrow> histogram \<Rightarrow> histogram" where
  "accumulate_row mv m = foldl (\<lambda>m (v, n). map_add_assign v n m) m mv"

definition accumulate_counter :: "real CTable \<Rightarrow> histogram" where
  "accumulate_counter ct = foldl (\<lambda>m (vs, mv). accumulate_row mv m) [] ct"

definition interesting_predicate_bscore_init ::
  "collaborators \<Rightarrow> real CTable \<Rightarrow> real \<Rightarrow> real \<Rightarrow> real \<Rightarrow> real \<Rightarrow> real \<Rightarrow> real \<Rightarrow> real
   \<Rightarrow> bool \<Rightarrow> bool \<Rightarrow> bool \<Rightarrow> interesting_predicate_bscore" where
  "interesting_predicate_bscore_init ext ct kld_w' skewness_w' stdU_w' skew_U_w'
       min_act max_act pen pos abs_skew decompose =
     (let cnt = accumulate_counter ct;
          pdf' = (if kld_w' > 0 then cnt else [])
      in \<lparr>occam = False, complexity_coef = Fin 0,
          ip_ctable = ct, kld_w = kld_w', skewness_w = skewness_w', abs_skewness = abs_skew,
          stdU_w = stdU_w', skew_U_w = skew_U_w',
          ip_min_activation = min_act, ip_max_activation = max_act, ip_penalty = pen,
          ip_positive = pos, decompose_kld = decompose,
          counter = cnt, pdf = pdf', skewness = weighted_skewness ext pdf'\<rparr>)"

definition bool_to_vertex :: "bool \<Rightarrow> vertex" where
  "bool_to_vertex b = (if b then logical_true else logical_false)"

text \<open>\<open>OTable pred_ot(tr, ctable)\<close>: the value of the candidate on every row.\<close>

definition pred_ot_of :: "evaluator \<Rightarrow> combo_tree \<Rightarrow> 'o CTable \<Rightarrow> vertex list" where
  "pred_ot_of ev tr ct = map (\<lambda>(vs, c). ev vs tr) ct"

text \<open>The first loop of \<open>operator()\<close>: the numbers of all and of the active observations.\<close>

fun actives_loop :: "vertex \<Rightarrow> nat \<times> nat \<Rightarrow> (real counter_t \<times> vertex) list \<Rightarrow> nat \<times> nat" where
  "actives_loop target (total_obs, actives) [] = (total_obs, actives)"
| "actives_loop target (total_obs, actives) ((c, v) # rest) =
     (let tc = total_count c
      in actives_loop target
           (total_obs + tc, if v = target then actives + tc else actives) rest)"

text \<open>The second loop: the histogram conditioned by the truth of the predicate,
  \<open>pred_counter[get_contin(mv.first)] = mv.second\<close> for every entry of every active row.\<close>

fun pred_counter_loop :: "vertex \<Rightarrow> histogram \<Rightarrow> (real counter_t \<times> vertex) list \<Rightarrow> histogram" where
  "pred_counter_loop target pred_counter [] = pred_counter"
| "pred_counter_loop target pred_counter ((c, v) # rest) =
     pred_counter_loop target
       (if v = target then foldl (\<lambda>m (val, n). map_assign val n m) pred_counter c
        else pred_counter)
       rest"

definition pred_counter_of :: "evaluator \<Rightarrow> vertex \<Rightarrow> real CTable \<Rightarrow> combo_tree \<Rightarrow> histogram" where
  "pred_counter_of ev target ct tr =
     pred_counter_loop target [] (zip (map snd ct) (pred_ot_of ev tr ct))"

fun fabs :: "fval \<Rightarrow> fval" where
  "fabs (Fin a) = Fin \<bar>a\<bar>"
| "fabs PInf = PInf"
| "fabs NInf = PInf"
| "fabs NaN = NaN"

text \<open>\<open>std::max(a, b)\<close> is \<open>(a < b) ? b : a\<close>.\<close>

definition fmax :: "fval \<Rightarrow> fval \<Rightarrow> fval" where
  "fmax a b = (if flt a b then b else a)"

text \<open>\<open>interesting_predicate_bscore::get_activation_penalty\<close>.\<close>

definition ip_get_activation_penalty ::
  "collaborators \<Rightarrow> interesting_predicate_bscore \<Rightarrow> fval \<Rightarrow> fval" where
  "ip_get_activation_penalty ext s activation =
     (let dst = fmax (fdiv (fmax (fsub (Fin (ip_min_activation s)) activation) (Fin 0))
                           (Fin (ip_min_activation s)))
                     (fdiv (fmax (fsub activation (Fin (ip_max_activation s))) (Fin 0))
                           (fsub (Fin 1) (Fin (ip_max_activation s))))
      in flog (pow ext (fsub (Fin 1) dst) (Fin (ip_penalty s))))"

text \<open>The components that \<open>operator()\<close> pushes when the conditioned histogram has more
  than one entry.\<close>

definition ip_components ::
  "collaborators \<Rightarrow> interesting_predicate_bscore \<Rightarrow> histogram \<Rightarrow> nat \<Rightarrow> nat \<Rightarrow> fval list" where
  "ip_components ext s pred_counter total_obs actives =
     (let bs = [];
          bs = (if kld_w s > 0
                then (if decompose_kld s
                      then map (\<lambda>x. fmul (Fin (kld_w s)) x)
                             (bs @ klds_decomposed ext (pdf s) pred_counter)
                      else bs @ [fmul (Fin (kld_w s)) (klds ext (pdf s) pred_counter)])
                else bs);
          bs = (if skewness_w s > 0 \<or> stdU_w s > 0 \<or> skew_U_w s > 0
                then let diff_skewness = Fin 0;
                         pred_skewness = weighted_skewness ext pred_counter;
                         diff_skewness = (if skewness_w s > 0 \<or> skew_U_w s > 0
                                          then fsub pred_skewness (skewness s)
                                          else diff_skewness);
                         val_skewness = (if abs_skewness s then fabs diff_skewness
                                         else diff_skewness);
                         bs = (if (skewness_w s > 0 \<or> skew_U_w s > 0) \<and> skewness_w s > 0
                               then bs @ [fmul (Fin (skewness_w s)) val_skewness]
                               else bs);
                         stdU = (if stdU_w s > 0 \<or> skew_U_w s > 0
                                 then standardizedMannWhitneyU ext (counter s) pred_counter
                                 else Fin 0);
                         bs = (if (stdU_w s > 0 \<or> skew_U_w s > 0) \<and> stdU_w s > 0
                               then bs @ [fmul (Fin (stdU_w s)) (fabs stdU)]
                               else bs);
                         bs = (if skew_U_w s > 0
                               then bs @ [fmul (fmul (Fin (skew_U_w s)) stdU) diff_skewness]
                               else bs)
                     in bs
                else bs);
          activation = fdiv (Fin (real actives)) (Fin (real total_obs));
          activation_penalty = ip_get_activation_penalty ext s activation
      in bs @ [activation_penalty])"

definition interesting_predicate_bscore_operator ::
  "collaborators \<Rightarrow> evaluator \<Rightarrow> (combo_tree \<Rightarrow> int) \<Rightarrow> interesting_predicate_bscore
   \<Rightarrow> combo_tree \<Rightarrow> penalized_behavioral_score" where
  "interesting_predicate_bscore_operator ext ev tc s tr =
     (let pred_ot = pred_ot_of ev tr (ip_ctable s);
          target = bool_to_vertex (ip_positive s);
          (total_obs, actives) =
             actives_loop target (0, 0) (zip (map snd (ip_ctable s)) pred_ot);
          pred_counter = pred_counter_of ev target (ip_ctable s) tr
      in if length pred_counter > 1
         then (ip_components ext s pred_counter total_obs actives, complexity_penalty tc s tr)
         else ([Fin (worst_score ext)], Fin 0))"

text \<open>The distinct output values of the active rows, and the count of a value as the
  specification describes it: the sum of its counts over all active rows.\<close>

definition active_rows :: "evaluator \<Rightarrow> vertex \<Rightarrow> real CTable \<Rightarrow> combo_tree \<Rightarrow> real counter_t list" where
  "active_rows ev target ct tr = map snd (filter (\<lambda>(vs, c). ev vs tr = target) ct)"

definition active_values :: "evaluator \<Rightarrow> vertex \<Rightarrow> real CTable \<Rightarrow> combo_tree \<Rightarrow> real list" where
  "active_values ev target ct tr = remdups (concat (map (map fst) (active_rows ev target ct tr)))"

definition spec_conditioned_count ::
  "evaluator \<Rightarrow> vertex \<Rightarrow> real CTable \<Rightarrow> combo_tree \<Rightarrow> real \<Rightarrow> nat" where
  "spec_conditioned_count ev target ct tr val =
     sum_list (map (\<lambda>c. get c val) (active_rows ev target ct tr))"

section \<open>Examples\<close>

text \<open>Concrete tables, candidates and scorers on which the definitions are evaluated.\<close>

definition example_boolean_table :: "bool CTable" where
  "example_boolean_table =
     [([logical_false, logical_false], [(False, 2)]),
      ([logical_false, logical_true], [(False, 1), (True, 1)]),
      ([logical_true, logical_true], [(True, 3)])]"

definition example_negative_table :: "bool CTable" where
  "example_negative_table =
     [([logical_false], [(False, 2)]), ([logical_true], [(False, 1)])]"

definition example_enum_table :: "string CTable" where
  "example_enum_table = [([logical_true], [(''a'', 1), (''b'', 1)])]"

definition example_contin_table :: "real CTable" where
  "example_contin_table = [([logical_false], [(1, 2)]), ([logical_true], [(1, 3)])]"

definition always_true :: combo_tree where
  "always_true = Node logical_true []"

definition always_false :: combo_tree where
  "always_false = Node logical_false []"

definition example_chain_branches :: "(combo_tree \<times> combo_tree) list" where
  "example_chain_branches =
     [(Node (argument 1) [], Node (enum_t ''a'') []),
      (Node logical_and [Node (argument 1) [], Node (argument 2) []], Node (enum_t ''b'') [])]"

definition example_chain_else :: combo_tree where
  "example_chain_else = Node (enum_t ''c'') []"

definition example_base :: bscore_base where
  "example_base = \<lparr>occam = False, complexity_coef = Fin 0\<rparr>"

definition example_discriminating_bscore :: "bool discriminating_bscore" where
  "example_discriminating_bscore =
     projr (discriminating_bscore_boolean example_negative_table (1/4) (3/4) 1)"

definition example_precision_bscore :: "bool precision_bscore" where
  "example_precision_bscore =
     projr (precision_bscore_boolean example_boolean_table 1 (1/2) (3/4) True False)"

text \<open>A table of three observations and a scorer with the minimum activation
  \<open>1.0f / 3\<close>, the \<open>float\<close> next to one third: \<open>11184811 / 2\<^sup>2\<^sup>5\<close>.\<close>

definition example_three_table :: "bool CTable" where
  "example_three_table = [([logical_false], [(False, 2)]), ([logical_true], [(True, 1)])]"

definition example_third_bscore :: "bool precision_bscore" where
  "example_third_bscore =
     projr (precision_bscore_boolean example_three_table 1 (11184811 / 33554432) (3/4)
              True False)"

definition example_one_clause :: combo_tree where
  "example_one_clause = Node logical_or [Node logical_and [Node (argument 1) []]]"

definition example_collaborators :: collaborators where
  "example_collaborators =
     \<lparr>klds = (\<lambda>p q. Fin 0), klds_decomposed = (\<lambda>p q. []),
      weighted_skewness = (\<lambda>h. Fin 0), standardizedMannWhitneyU = (\<lambda>p q. Fin 0),
      pow = (\<lambda>x y. x), worst_score = - 1\<rparr>"

definition example_interesting_predicate_bscore :: interesting_predicate_bscore where
  "example_interesting_predicate_bscore =
     interesting_predicate_bscore_init example_collaborators example_contin_table
       1 1 1 1 (1/4) (3/4) 1 True False False"

section \<open>The complexity coefficient: properties\<close>

text \<open>
  Claim C8. For an alphabet of at least two symbols, \<open>set_complexity_coef\<close> with \<open>p\<close>
  strictly between 0 and 0.5 sets \<open>occam\<close> and sets the coefficient to the finite,
  positive value \<open>-log(alphabet_size) / log(p / (1 - p))\<close>; with \<open>q = 0\<close>, \<open>q = 0.5\<close> or
  \<open>q\<close> outside \<open>[0, 1]\<close> it clears \<open>occam\<close> and sets the coefficient to 0.
\<close>

theorem set_complexity_coef_discrete:
  assumes "2 \<le> alphabet_size"
  shows "(0 < p \<and> p < 1/2 \<longrightarrow>
            occam (set_complexity_coef alphabet_size p s) \<and>
            complexity_coef (set_complexity_coef alphabet_size p s) =
              Fin (- ln (real alphabet_size) / ln (p / (1 - p))) \<and>
            0 < - ln (real alphabet_size) / ln (p / (1 - p)))
       \<and> (q \<le> 0 \<or> q = 1/2 \<or> 1 < q \<longrightarrow>
            \<not> occam (set_complexity_coef alphabet_size q s) \<and>
            complexity_coef (set_complexity_coef alphabet_size q s) = Fin 0)"
proof (intro conjI impI)
  assume p: "0 < p \<and> p < 1/2"
  have q: "0 < p / (1 - p)" "p / (1 - p) < 1" using p by (auto simp: field_simps)
  have l1: "ln (p / (1 - p)) < 0" using q by simp
  have l2: "0 < ln (real alphabet_size)" using assms by simp
  show pos: "0 < - ln (real alphabet_size) / ln (p / (1 - p))"
    using l1 l2 by (simp add: field_simps divide_neg_neg)
  show "occam (set_complexity_coef alphabet_size p s)"
    using p by (simp add: set_complexity_coef_def Let_def)
  show "complexity_coef (set_complexity_coef alphabet_size p s) =
          Fin (- ln (real alphabet_size) / ln (p / (1 - p)))"
    using assms p q l1
    by (simp add: set_complexity_coef_def discrete_complexity_coef_def fsub_def Let_def)
next
  assume "q \<le> 0 \<or> q = 1/2 \<or> 1 < q"
  then show "\<not> occam (set_complexity_coef alphabet_size q s)"
    and "complexity_coef (set_complexity_coef alphabet_size q s) = Fin 0"
    by (auto simp add: set_complexity_coef_def Let_def)
qed

theorem set_complexity_coef_discrete_witness:
  "occam (set_complexity_coef 2 (1/10) example_base) \<and>
   complexity_coef (set_complexity_coef 2 (1/10) example_base) =
     Fin (- ln (real 2) / ln ((1/10) / (1 - 1/10))) \<and>
   \<not> occam (set_complexity_coef 2 (1/2) example_base) \<and>
   complexity_coef (set_complexity_coef 2 (1/2) example_base) = Fin 0"
  using set_complexity_coef_discrete [of 2 "1/10" example_base "1/2"] by simp

section \<open>\<open>enum_table_bscore::best_possible_bscore\<close>: properties\<close>

lemma unsigned_minus_eq:
  "a < 2 ^ 32 \<Longrightarrow> b < 2 ^ 32 \<Longrightarrow>
   unsigned_minus a b = (if b \<le> a then a - b else a + 2 ^ 32 - b)"
  by (simp add: unsigned_minus_def unat_sub_if_size unat_of_nat word_size)

lemma most_loop_le: "most_loop m c \<le> m + sum_list (map snd c)"
  by (induction m c rule: most_loop.induct) auto

text \<open>The component of a row is never negative: it is 0 when one output value has the
  whole count of the row, and \<open>2\<^sup>3\<^sup>2 + most - total\<close> otherwise.\<close>

lemma best_possible_row_value:
  assumes "total_count c < 2 ^ 32"
  shows "best_possible_row c =
           (if most_loop 0 c = total_count c then 0
            else real (most_loop 0 c) - real (total_count c) + 2 ^ 32)"
  using most_loop_le[of 0 c] assms
  by (simp add: best_possible_row_def total_count_def unsigned_minus_eq)

text \<open>
  Claim C1. The component of a row in \<open>best_possible_bscore()\<close> should be the largest
  count of a single output value minus the total count of the row, zero or negative.
  For the row with the outputs \<open>a\<close> and \<open>b\<close> seen once each, the largest count is 1 and
  the total is 2: the unsigned difference wraps around and the component is
  \<open>4294967295\<close>, not \<open>-1\<close>.
\<close>

theorem enum_table_best_possible_bscore_wraps:
  "enum_table_best_possible_bscore example_enum_table = [4294967295]"
  by (simp add: enum_table_best_possible_bscore_def example_enum_table_def
        best_possible_row_def total_count_def unsigned_minus_eq)

section \<open>\<open>graded_complexity\<close>: properties\<close>

lemma graded_complexity_loop_chain:
  assumes "g \<noteq> 0"
    and "\<forall>b \<in> set bs. \<not> is_enum_type (root (fst b))"
    and "is_enum_type (root e)"
  shows "graded_complexity_loop tc g (Fin w) (Fin a) (concat (map (\<lambda>(p, c). [p, c]) bs) @ [e]) =
     Some (Fin (a + w * ((\<Sum>i < length bs. (1 / g) ^ i * real_of_int (tc (fst (bs ! i))))
                 + (1 / g) ^ length bs * real_of_int (tc e))))"
  using assms
proof (induction bs arbitrary: w a)
  case Nil
  then show ?case by simp
next
  case (Cons b bs)
  obtain p c where b: "b = (p, c)" by (cases b)
  have ne: "\<not> is_enum_type (root p)" using Cons.prems b by simp
  have IH: "graded_complexity_loop tc g (Fin (w / g)) (Fin (a + w * real_of_int (tc p)))
       (concat (map (\<lambda>(p, c). [p, c]) bs) @ [e]) =
     Some (Fin ((a + w * real_of_int (tc p)) + (w / g) * ((\<Sum>i < length bs. (1 / g) ^ i * real_of_int (tc (fst (bs ! i))))
                 + (1 / g) ^ length bs * real_of_int (tc e))))"
    using Cons.IH[of "w / g" "a + w * real_of_int (tc p)"] Cons.prems by simp
  have s: "(\<Sum>i < Suc (length bs). (1 / g) ^ i * real_of_int (tc (fst ((b # bs) ! i)))) =
      real_of_int (tc p) + (1 / g) * (\<Sum>i < length bs. (1 / g) ^ i * real_of_int (tc (fst (bs ! i))))"
    unfolding sum.lessThan_Suc_shift
    by (simp add: b sum_distrib_left mult.assoc del: sum.lessThan_Suc)
  have "graded_complexity_loop tc g (Fin w) (Fin a) (concat (map (\<lambda>(p, c). [p, c]) (b # bs)) @ [e])
     = graded_complexity_loop tc g (Fin (w / g)) (Fin (a + w * real_of_int (tc p)))
       (concat (map (\<lambda>(p, c). [p, c]) bs) @ [e])"
    using ne \<open>g \<noteq> 0\<close> by (simp add: b Let_def)
  also note IH
  also have "(a + w * real_of_int (tc p)) + (w / g) * ((\<Sum>i < length bs. (1 / g) ^ i * real_of_int (tc (fst (bs ! i))))
                 + (1 / g) ^ length bs * real_of_int (tc e))
     = a + w * ((\<Sum>i < length (b # bs). (1 / g) ^ i * real_of_int (tc (fst ((b # bs) ! i))))
                 + (1 / g) ^ length (b # bs) * real_of_int (tc e))"
    unfolding length_Cons s by (simp add: algebra_simps)
  finally show ?case .
qed

text \<open>
  Claim C2, as amended. For a cond chain whose predicates are not enum constants and whose
  else clause is one, and a grading strictly between 0 and 1, \<open>graded_complexity\<close> is the
  sum of the tree complexities of the predicates and of the else clause, where the weight
  of branch \<open>i\<close> is \<open>(1 / grading) ^ i\<close>: the weights grow strictly from branch to
  branch, so the complexity of a deeper branch counts more.
\<close>

theorem graded_complexity_retrograded:
  assumes "0 < grading" and "grading < 1"
    and "\<forall>b \<in> set branches. \<not> is_enum_type (root (fst b))"
    and "is_enum_type (root e)"
  shows "graded_complexity tc grading (cond_chain branches e) =
           Some (Fin (retrograded_complexity tc grading branches e))
       \<and> (1 / grading) ^ i < (1 / grading) ^ Suc i"
proof
  have g: "grading \<noteq> 0" using assms(1) by simp
  show "graded_complexity tc grading (cond_chain branches e) =
           Some (Fin (retrograded_complexity tc grading branches e))"
    using graded_complexity_loop_chain[OF g assms(3,4), of tc 1 0]
    by (simp add: graded_complexity_def cond_chain_def retrograded_complexity_def)
  show "(1 / grading) ^ i < (1 / grading) ^ Suc i"
    using assms(1,2) by (intro power_strict_increasing) simp_all
qed

theorem graded_complexity_retrograded_witness:
  "graded_complexity vertex_count (1/2) (cond_chain example_chain_branches example_chain_else) =
     Some (Fin (retrograded_complexity vertex_count (1/2) example_chain_branches example_chain_else))
   \<and> retrograded_complexity vertex_count (1/2) example_chain_branches example_chain_else = 11
   \<and> (1 / (1/2 :: real)) ^ 1 < (1 / (1/2)) ^ Suc 1"
proof -
  have r: "retrograded_complexity vertex_count (1/2) example_chain_branches example_chain_else = 11"
    by (simp add: example_chain_branches_def example_chain_else_def retrograded_complexity_def
          lessThan_Suc)
  have h: "\<forall>b \<in> set example_chain_branches. \<not> is_enum_type (root (fst b))"
    "is_enum_type (root example_chain_else)"
    by (simp_all add: example_chain_branches_def example_chain_else_def)
  show ?thesis
    using graded_complexity_retrograded
            [of "1/2" example_chain_branches example_chain_else vertex_count 1] h r
    by simp
qed

text \<open>
  The claim as stated, with the weight \<open>grading ^ i\<close> for branch \<open>i\<close>, fails. For two
  branches whose predicates have the complexities 1 and 3, an else clause of complexity 1
  and a grading of one half, the code returns \<open>1 + 2 * 3 + 4 * 1 = 11\<close>: the second
  predicate is weighted by 2, not by one half, and the specified sum is
  \<open>1 + 3/2 + 1/4 = 11/4\<close>.
\<close>

theorem graded_complexity_spec_counterexample:
  "graded_complexity vertex_count (1/2) (cond_chain example_chain_branches example_chain_else) =
     Some (Fin 11)
   \<and> spec_graded_complexity vertex_count (1/2) example_chain_branches example_chain_else = 11/4
   \<and> graded_complexity vertex_count (1/2) (cond_chain example_chain_branches example_chain_else) \<noteq>
     Some (Fin (spec_graded_complexity vertex_count (1/2)
                  example_chain_branches example_chain_else))"
  by (simp add: graded_complexity_def cond_chain_def spec_graded_complexity_def
        example_chain_branches_def example_chain_else_def lessThan_Suc)

section \<open>\<open>class_idx\<close>: properties\<close>

lemma class_idx_within_bucket:
  assumes "1 \<le> l" "l < u" "u \<le> length ths" "ths ! (l - 1) \<le> v" "v < ths ! (u - 1)"
  shows "\<exists>i. class_idx_within ths v l u = Some i \<and> l \<le> i \<and> i < u \<and>
             ths ! (i - 1) \<le> v \<and> v < ths ! i"
  using assms
proof (induction ths v l u rule: class_idx_within.induct)
  case (1 ths v l u)
  show ?case
  proof (cases "u - l = 1")
    case True
    then have "u - 1 = l" using "1.prems" by simp
    then show ?thesis using True "1.prems" by (simp add: class_idx_within.simps[of ths v l u])
  next
    case False
    define m where "m = l + (u - l) div 2"
    have m: "l < m" "m < u" using False "1.prems" by (simp_all add: m_def)
    have inb: "\<not> length ths \<le> m - 1" using m "1.prems" by simp
    show ?thesis
    proof (cases "v < ths ! (m - 1)")
      case True
      have "\<exists>i. class_idx_within ths v l m = Some i \<and> l \<le> i \<and> i < m \<and> ths ! (i - 1) \<le> v \<and> v < ths ! i"
        using "1.IH"(1)[OF _ False m_def inb refl True] "1.prems" m True by simp
      then show ?thesis using m True False inb "1.prems"
        by (subst class_idx_within.simps) (auto simp: m_def[symmetric] Let_def)
    next
      case F2: False
      have "\<exists>i. class_idx_within ths v m u = Some i \<and> m \<le> i \<and> i < u \<and> ths ! (i - 1) \<le> v \<and> v < ths ! i"
        using "1.IH"(2)[OF _ False m_def inb refl F2] "1.prems" m F2 by simp
      then show ?thesis using m F2 False inb "1.prems"
        by (subst class_idx_within.simps) (auto simp: m_def[symmetric] Let_def)
    qed
  qed
qed

lemma linear_scan_idx_eq:
  assumes "sorted ths" "i \<le> length ths" "0 < i \<longrightarrow> ths ! (i - 1) \<le> v"
    "i < length ths \<longrightarrow> v < ths ! i"
  shows "linear_scan_idx ths v = i"
proof -
  have "takeWhile (\<lambda>t. t \<le> v) ths = take i ths"
  proof (rule takeWhile_eq_take_P_nth)
    fix j assume j: "j < i" "j < length ths"
    then have "ths ! j \<le> ths ! (i - 1)" using assms(1,2) by (intro sorted_nth_mono) auto
    then show "ths ! j \<le> v" using assms(3) j by auto
  next
    assume "i < length ths"
    then show "\<not> ths ! i \<le> v" using assms(4) by auto
  qed
  then show ?thesis using assms(2) by (simp add: linear_scan_idx_def)
qed

lemma linear_scan_idx_mono: "v1 \<le> v2 \<Longrightarrow> linear_scan_idx ths v1 \<le> linear_scan_idx ths v2"
  unfolding linear_scan_idx_def by (induction ths) auto

lemma class_idx_linear_scan:
  assumes "sorted ths" "ths \<noteq> []"
  shows "class_idx ths v = Some (linear_scan_idx ths v)"
proof -
  have len: "0 < length ths" using assms(2) by simp
  show ?thesis
  proof (cases "v < ths ! 0")
    case True
    have "linear_scan_idx ths v = 0" using assms True len by (intro linear_scan_idx_eq) auto
    then show ?thesis using True assms(2) by (simp add: class_idx_def)
  next
    case F1: False
    show ?thesis
    proof (cases "ths ! (length ths - 1) \<le> v")
      case True
      have "linear_scan_idx ths v = length ths" using assms True by (intro linear_scan_idx_eq) auto
      then show ?thesis using True F1 assms(2) by (simp add: class_idx_def Let_def)
    next
      case F2: False
      have "1 < length ths" using F1 F2 len by (cases "length ths = 1") auto
      then obtain i where i: "class_idx_within ths v 1 (length ths) = Some i" "1 \<le> i" "i < length ths"
         "ths ! (i - 1) \<le> v" "v < ths ! i"
        using class_idx_within_bucket[of 1 "length ths" ths v] F1 F2 by auto
      have "linear_scan_idx ths v = i" using assms(1) i by (intro linear_scan_idx_eq) auto
      then show ?thesis using F1 F2 assms(2) i by (simp add: class_idx_def Let_def)
    qed
  qed
qed

text \<open>
  Claim C5. For a sorted, non-empty list of thresholds, \<open>class_idx\<close> returns the bucket
  that a linear scan finds: 0 below the first threshold, the number of thresholds at or
  above the last one, and otherwise the only \<open>i\<close> with
  \<open>thresholds[i-1] \<le> v < thresholds[i]\<close>, so that a value equal to a threshold goes to
  the upper bucket; and \<open>class_idx\<close> is monotone in its input.
\<close>

theorem class_idx_agrees_with_linear_scan:
  assumes "sorted thresholds" and "thresholds \<noteq> []"
  shows "class_idx thresholds v = Some (linear_scan_idx thresholds v)
       \<and> (v1 \<le> v2 \<longrightarrow>
            (\<exists>i j. class_idx thresholds v1 = Some i \<and> class_idx thresholds v2 = Some j \<and> i \<le> j))
       \<and> (v < thresholds ! 0 \<longrightarrow> class_idx thresholds v = Some 0)
       \<and> (thresholds ! (length thresholds - 1) \<le> v \<longrightarrow>
            class_idx thresholds v = Some (length thresholds))
       \<and> (thresholds ! 0 \<le> v \<and> v < thresholds ! (length thresholds - 1) \<longrightarrow>
            (\<exists>i. class_idx thresholds v = Some i \<and> 0 < i \<and> i < length thresholds \<and>
                 thresholds ! (i - 1) \<le> v \<and> v < thresholds ! i \<and>
                 (\<forall>j. 0 < j \<and> j < length thresholds \<and>
                      thresholds ! (j - 1) \<le> v \<and> v < thresholds ! j \<longrightarrow> j = i)))"
proof (intro conjI impI)
  note eq = class_idx_linear_scan[OF assms]
  have len: "0 < length thresholds" using assms(2) by simp
  show "class_idx thresholds v = Some (linear_scan_idx thresholds v)" by (rule eq)
  show "\<exists>i j. class_idx thresholds v1 = Some i \<and> class_idx thresholds v2 = Some j \<and> i \<le> j"
    if "v1 \<le> v2"
    using that by (simp add: eq linear_scan_idx_mono)
  show "class_idx thresholds v = Some 0" if "v < thresholds ! 0"
    using that assms(2) by (simp add: class_idx_def)
  show "class_idx thresholds v = Some (length thresholds)"
    if "thresholds ! (length thresholds - 1) \<le> v"
  proof -
    have "linear_scan_idx thresholds v = length thresholds"
      using assms that by (intro linear_scan_idx_eq) auto
    then show ?thesis by (simp add: eq)
  qed
  show "\<exists>i. class_idx thresholds v = Some i \<and> 0 < i \<and> i < length thresholds \<and>
             thresholds ! (i - 1) \<le> v \<and> v < thresholds ! i \<and>
             (\<forall>j. 0 < j \<and> j < length thresholds \<and>
                  thresholds ! (j - 1) \<le> v \<and> v < thresholds ! j \<longrightarrow> j = i)"
    if b: "thresholds ! 0 \<le> v \<and> v < thresholds ! (length thresholds - 1)"
  proof -
    have "1 < length thresholds" using b len by (cases "length thresholds = 1") auto
    then obtain i where i: "class_idx_within thresholds v 1 (length thresholds) = Some i"
        "1 \<le> i" "i < length thresholds" "thresholds ! (i - 1) \<le> v" "v < thresholds ! i"
      using class_idx_within_bucket[of 1 "length thresholds" thresholds v] b by auto
    have li: "linear_scan_idx thresholds v = i"
      using assms(1) i by (intro linear_scan_idx_eq) auto
    have "j = i" if "0 < j \<and> j < length thresholds \<and>
                       thresholds ! (j - 1) \<le> v \<and> v < thresholds ! j" for j
    proof -
      have "linear_scan_idx thresholds v = j"
        using assms(1) that by (intro linear_scan_idx_eq) auto
      then show ?thesis using li by simp
    qed
    then show ?thesis using i li eq by auto
  qed
qed

theorem class_idx_agrees_with_linear_scan_witness:
  "sorted [1, 2, 2, 5 :: real] \<and>
   class_idx [1, 2, 2, 5] 2 = Some (linear_scan_idx [1, 2, 2, 5] 2) \<and>
   linear_scan_idx [1, 2, 2, 5] 2 = 3 \<and>
   class_idx [1, 2, 2, 5] 0 = Some 0 \<and>
   class_idx [1, 2, 2, 5] 5 = Some 4 \<and>
   (\<exists>i j. class_idx [1, 2, 2, 5] 2 = Some i \<and> class_idx [1, 2, 2, 5] 5 = Some j \<and> i \<le> j)"
proof -
  have s: "sorted [1, 2, 2, 5 :: real]" and n: "[1, 2, 2, 5 :: real] \<noteq> []" by simp_all
  have l: "linear_scan_idx [1, 2, 2, 5] 2 = 3" "linear_scan_idx [1, 2, 2, 5] 0 = 0"
    "linear_scan_idx [1, 2, 2, 5] 5 = 4"
    by (simp_all add: linear_scan_idx_def)
  have a: "class_idx [1, 2, 2, 5] 2 = Some 3"
    using class_idx_agrees_with_linear_scan [OF s n, of 2] by (simp add: l)
  have b: "class_idx [1, 2, 2, 5] 0 = Some 0"
    using class_idx_agrees_with_linear_scan [OF s n, of 0] by (simp add: l)
  have c: "class_idx [1, 2, 2, 5] 5 = Some 4"
    using class_idx_agrees_with_linear_scan [OF s n, of 5] by (simp add: l)
  show ?thesis using s a b c l by simp
qed

section \<open>The discriminating scorers: properties\<close>

lemma count_loop_none_true:
  "\<forall>(vs, c) \<in> set ct. ev vs tr \<noteq> logical_true \<Longrightarrow>
   true_positive_sum (count_loop ev ty so tr ctr ct) = true_positive_sum ctr \<and>
   false_positive_sum (count_loop ev ty so tr ctr ct) = false_positive_sum ctr"
  by (induction ev ty so tr ctr ct rule: count_loop.induct) (auto simp: Let_def)

lemma count_loop_all_true_negative:
  "\<forall>(vs, c) \<in> set ct. ev vs tr = logical_true \<and> so c = 0 \<Longrightarrow>
   true_positive_sum (count_loop ev ty so tr ctr ct) = true_positive_sum ctr \<and>
   false_negative_sum (count_loop ev ty so tr ctr ct) = false_negative_sum ctr"
  by (induction ev ty so tr ctr ct rule: count_loop.induct) (auto simp: Let_def)

lemma get_threshold_penalty_NaN: "get_threshold_penalty s NaN = Fin 0"
  by (simp add: get_threshold_penalty_def fsub_def)

lemma precision_of_none_true:
  "\<forall>(vs, c) \<in> set (d_ctable s). ev vs tr \<noteq> logical_true \<Longrightarrow> precision_of (count ev s tr) = NaN"
  using count_loop_none_true[of "d_ctable s" ev tr "d_output_type s" "d_sum_outputs s" d_counts_init]
  by (simp add: precision_of_def count_def d_counts_init_def)

lemma recall_of_all_true_negative:
  "\<forall>(vs, c) \<in> set (d_ctable s). ev vs tr = logical_true \<and> d_sum_outputs s c = 0 \<Longrightarrow> recall_of (count ev s tr) = NaN"
  using count_loop_all_true_negative[of "d_ctable s" ev tr "d_sum_outputs s" "d_output_type s" d_counts_init]
  by (simp add: recall_of_def count_def d_counts_init_def)

lemma get_threshold_penalty_inside:
  "min_threshold s \<le> v \<Longrightarrow> v \<le> max_threshold s \<Longrightarrow> get_threshold_penalty s (Fin v) = Fin 0"
  by (simp add: get_threshold_penalty_def fsub_def Let_def)

lemma get_threshold_penalty_below:
  assumes "0 < min_threshold s" "min_threshold s \<le> max_threshold s" "0 < hardness s"
    "0 \<le> v" "v < min_threshold s"
  shows "get_threshold_penalty s (Fin v) =
    (if v = 0 then NInf else Fin (hardness s * ln (v / min_threshold s)))"
  using assms by (auto simp add: get_threshold_penalty_def fsub_def Let_def signed_inf_def)

lemma get_threshold_penalty_above:
  assumes "min_threshold s \<le> max_threshold s" "0 < hardness s" "v \<le> 1" "max_threshold s < v"
  shows "get_threshold_penalty s (Fin v) =
    (if v = 1 then NInf else Fin (hardness s * ln ((1 - v) / (1 - max_threshold s))))"
proof -
  have m: "max_threshold s < 1" using assms by simp
  have e: "1 - (v - max_threshold s) / (1 - max_threshold s) = (1 - v) / (1 - max_threshold s)"
    using m by (simp add: field_simps)
  have nlt: "\<not> v < min_threshold s" using assms by simp
  have "get_threshold_penalty s (Fin v) =
     fmul (Fin (hardness s)) (flog (Fin (1 - (v - max_threshold s) / (1 - max_threshold s))))"
    using assms m nlt by (simp add: get_threshold_penalty_def fsub_def Let_def)
  also have "\<dots> = (if v = 1 then NInf else Fin (hardness s * ln ((1 - v) / (1 - max_threshold s))))"
    unfolding e using assms m by (auto simp: signed_inf_def)
  finally show ?thesis .
qed

text \<open>
  Claim C4. For a discriminating scorer with \<open>0 < min_threshold \<le> max_threshold\<close> and a
  positive hardness, the threshold penalty is 0 for every value in the band, strictly
  negative for every value of \<open>[0, 1]\<close> outside the band (minus infinity at the far ends
  0 and 1), and strictly decreasing as the value moves away from the band, below it and
  above it.
\<close>

theorem get_threshold_penalty_band:
  assumes "0 < min_threshold s" and "min_threshold s \<le> max_threshold s" and "0 < hardness s"
  shows "(min_threshold s \<le> v \<and> v \<le> max_threshold s \<longrightarrow>
            get_threshold_penalty s (Fin v) = Fin 0)
       \<and> (0 \<le> w \<and> w \<le> 1 \<and> (w < min_threshold s \<or> max_threshold s < w) \<longrightarrow>
            flt (get_threshold_penalty s (Fin w)) (Fin 0))
       \<and> (0 \<le> a \<and> a < b \<and> b < min_threshold s \<longrightarrow>
            flt (get_threshold_penalty s (Fin a)) (get_threshold_penalty s (Fin b)))
       \<and> (max_threshold s < c \<and> c < d \<and> d \<le> 1 \<longrightarrow>
            flt (get_threshold_penalty s (Fin d)) (get_threshold_penalty s (Fin c)))"
proof (intro conjI impI)
  show "get_threshold_penalty s (Fin v) = Fin 0"
    if "min_threshold s \<le> v \<and> v \<le> max_threshold s"
    using that by (simp add: get_threshold_penalty_inside)
  show "flt (get_threshold_penalty s (Fin w)) (Fin 0)"
    if w: "0 \<le> w \<and> w \<le> 1 \<and> (w < min_threshold s \<or> max_threshold s < w)"
  proof (cases "w < min_threshold s")
    case True
    have "w \<noteq> 0 \<Longrightarrow> hardness s * ln (w / min_threshold s) < 0"
      using assms w True by (simp add: mult_pos_neg)
    then show ?thesis using get_threshold_penalty_below[OF assms _ True] w by auto
  next
    case False
    then have above: "max_threshold s < w" using w by simp
    have "w \<noteq> 1 \<Longrightarrow> hardness s * ln ((1 - w) / (1 - max_threshold s)) < 0"
      using assms w above by (simp add: mult_pos_neg)
    then show ?thesis using get_threshold_penalty_above[OF assms(2,3) _ above] w by auto
  qed
  show "flt (get_threshold_penalty s (Fin a)) (get_threshold_penalty s (Fin b))"
    if ab: "0 \<le> a \<and> a < b \<and> b < min_threshold s"
  proof -
    have ga: "get_threshold_penalty s (Fin a) =
        (if a = 0 then NInf else Fin (hardness s * ln (a / min_threshold s)))"
      using ab by (intro get_threshold_penalty_below assms) auto
    have gb: "get_threshold_penalty s (Fin b) = Fin (hardness s * ln (b / min_threshold s))"
      using get_threshold_penalty_below[OF assms, of b] ab by auto
    have "a \<noteq> 0 \<Longrightarrow> hardness s * ln (a / min_threshold s) < hardness s * ln (b / min_threshold s)"
      using assms ab by (simp add: divide_strict_right_mono)
    then show ?thesis unfolding ga gb by auto
  qed
  show "flt (get_threshold_penalty s (Fin d)) (get_threshold_penalty s (Fin c))"
    if cd: "max_threshold s < c \<and> c < d \<and> d \<le> 1"
  proof -
    have gd: "get_threshold_penalty s (Fin d) =
        (if d = 1 then NInf else Fin (hardness s * ln ((1 - d) / (1 - max_threshold s))))"
      using cd by (intro get_threshold_penalty_above assms) auto
    have gc: "get_threshold_penalty s (Fin c) = Fin (hardness s * ln ((1 - c) / (1 - max_threshold s)))"
      using get_threshold_penalty_above[OF assms(2,3), of c] cd by auto
    have "d \<noteq> 1 \<Longrightarrow> hardness s * ln ((1 - d) / (1 - max_threshold s))
               < hardness s * ln ((1 - c) / (1 - max_threshold s))"
      using assms cd by (simp add: divide_strict_right_mono)
    then show ?thesis unfolding gd gc by auto
  qed
qed

theorem get_threshold_penalty_band_witness:
  "get_threshold_penalty example_discriminating_bscore (Fin (1/2)) = Fin 0
   \<and> flt (get_threshold_penalty example_discriminating_bscore (Fin (1/8))) (Fin 0)
   \<and> flt (get_threshold_penalty example_discriminating_bscore (Fin 0))
         (get_threshold_penalty example_discriminating_bscore (Fin (1/8)))
   \<and> flt (get_threshold_penalty example_discriminating_bscore (Fin 1))
         (get_threshold_penalty example_discriminating_bscore (Fin (7/8)))"
proof -
  have f: "min_threshold example_discriminating_bscore = 1/4"
    "max_threshold example_discriminating_bscore = 3/4"
    "hardness example_discriminating_bscore = 1"
    by (simp_all add: example_discriminating_bscore_def discriminating_bscore_boolean_def
          Let_def split: prod.splits)
  show ?thesis
    using get_threshold_penalty_band
            [of example_discriminating_bscore "1/2" "1/8" 0 "1/8" "7/8" 1]
    by (simp add: f)
qed

text \<open>
  Claim C10. For a candidate that is false on every row, \<open>recall_bscore::operator()\<close>
  computes the precision as \<open>0 / (0 + 0)\<close>, which is NaN, and passes it to the threshold
  penalty; for a candidate that is true on every row of a table without positive outputs,
  \<open>prerec_bscore::operator()\<close> computes the recall as \<open>0 / (0 + 0)\<close> likewise. Neither
  has a default for the case. (With NaN both comparisons of the penalty are false, so the
  penalty is \<open>hardness * log(1)\<close>, which is 0.)
\<close>

theorem recall_prerec_unguarded_quotient:
  assumes "discriminating_bscore_boolean ct min_thr max_thr hard = Inr s"
  shows "((\<forall>(vs, c) \<in> set ct. ev vs tr \<noteq> logical_true) \<longrightarrow>
            precision_of (count ev s tr) = NaN \<and>
            recall_bscore_operator ev tc s tr =
              ([recall_of (count ev s tr), get_threshold_penalty s NaN], complexity_penalty tc s tr))
       \<and> ((\<forall>(vs, c) \<in> set ct. ev vs tr' = logical_true \<and> get c True = 0) \<longrightarrow>
            recall_of (count ev s tr') = NaN \<and>
            prerec_bscore_operator ev tc s tr' =
              ([precision_of (count ev s tr'), get_threshold_penalty s NaN], complexity_penalty tc s tr'))
       \<and> get_threshold_penalty s NaN = Fin 0"
proof -
  have s: "d_ctable s = ct" "d_sum_outputs s = sum_outputs_boolean"
    using assms by (auto simp: discriminating_bscore_boolean_def Let_def split: prod.splits if_splits)
  show ?thesis
    using precision_of_none_true[of s ev tr] recall_of_all_true_negative[of s ev tr']
    by (auto simp: s recall_bscore_operator_def prerec_bscore_operator_def Let_def
          sum_outputs_boolean_def get_threshold_penalty_NaN)
qed

theorem recall_prerec_unguarded_quotient_witness:
  "discriminating_bscore_boolean example_negative_table (1/4) (3/4) 1 =
     Inr example_discriminating_bscore \<and>
   precision_of (count eval_binding example_discriminating_bscore always_false) = NaN \<and>
   recall_bscore_operator eval_binding vertex_count example_discriminating_bscore always_false =
     ([recall_of (count eval_binding example_discriminating_bscore always_false),
       get_threshold_penalty example_discriminating_bscore NaN],
      complexity_penalty vertex_count example_discriminating_bscore always_false) \<and>
   recall_of (count eval_binding example_discriminating_bscore always_true) = NaN \<and>
   prerec_bscore_operator eval_binding vertex_count example_discriminating_bscore always_true =
     ([precision_of (count eval_binding example_discriminating_bscore always_true),
       get_threshold_penalty example_discriminating_bscore NaN],
      complexity_penalty vertex_count example_discriminating_bscore always_true)"
proof -
  have c: "discriminating_bscore_boolean example_negative_table (1/4) (3/4) 1 =
     Inr example_discriminating_bscore"
    by (simp add: example_discriminating_bscore_def discriminating_bscore_boolean_def
          Let_def split: prod.splits)
  have f: "\<forall>(vs, c) \<in> set example_negative_table. eval_binding vs always_false \<noteq> logical_true"
    by (simp add: example_negative_table_def eval_binding_def always_false_def)
  have t: "\<forall>(vs, c) \<in> set example_negative_table.
             eval_binding vs always_true = logical_true \<and> get c True = 0"
    by (simp add: example_negative_table_def eval_binding_def always_true_def get_def)
  show ?thesis
    using recall_prerec_unguarded_quotient
            [OF c, of eval_binding always_false vertex_count always_true] c f t
    by simp
qed

section \<open>\<open>precision_bscore\<close>: properties\<close>

lemma active_loop_none_true:
  "\<forall>(vs, c) \<in> set ct. ev vs tr \<noteq> logical_true \<Longrightarrow> active_loop ev s tr acc ct = acc"
  by (induction ev s tr acc ct rule: active_loop.induct) auto

text \<open>
  Claim C9. For a candidate that is true on no row of the table, the precision that
  \<open>precision_bscore::operator()\<close> pushes as the first component is exactly 1.
\<close>

theorem precision_zero_active:
  assumes "\<forall>(vs, c) \<in> set (ctable s). ev vs tr \<noteq> logical_true"
  shows "fst (precision_bscore_operator ev tc s tr) =
           [Fin 1, get_activation_penalty s (fdiv (Fin 0) (Fin (real (ctable_usize s))))]"
proof -
  have "active_loop ev s tr (0, 0, []) (ctable s) = (0, 0, [])"
    using assms by (rule active_loop_none_true)
  then show ?thesis
    by (simp add: precision_bscore_operator_def precision_component_def)
qed

theorem precision_zero_active_witness:
  "fst (precision_bscore_operator eval_binding vertex_count example_precision_bscore always_false) =
     [Fin 1, get_activation_penalty example_precision_bscore
               (fdiv (Fin 0) (Fin (real (ctable_usize example_precision_bscore))))]"
proof -
  have "\<forall>(vs, c) \<in> set (ctable example_precision_bscore).
          eval_binding vs always_false \<noteq> logical_true"
    by (simp add: example_precision_bscore_def precision_bscore_boolean_def
          example_boolean_table_def eval_binding_def always_false_def)
  then show ?thesis by (rule precision_zero_active)
qed

lemma unsigned_plus_eq: "a + b < 2 ^ 32 \<Longrightarrow> unsigned_plus a b = a + b"
  by (simp add: unsigned_plus_def unat_word_ariths unat_of_nat)

lemma multimap_insert_mset: "mset (multimap_insert k v m) = add_mset (k, v) (mset m)"
  by (induction k v m rule: multimap_insert.induct) auto

lemma ptc_loop_Some:
  assumes "\<forall>(vs, c) \<in> set ct. total_count c \<noteq> 0"
  shows "\<exists>ptc. ptc_loop so acc ct = Some ptc \<and>
     mset (map snd ptc) = mset (map snd acc) + mset (map (\<lambda>(vs, c). (vs, total_count c)) ct)"
  using assms
proof (induction ct arbitrary: acc)
  case Nil
  then show ?case by simp
next
  case (Cons r ct)
  obtain vs c where r: "r = (vs, c)" by (cases r)
  have t: "total_count c \<noteq> 0" using Cons.prems r by simp
  let ?acc = "multimap_insert (so c / real (total_count c)) (vs, total_count c) acc"
  obtain ptc where ptc: "ptc_loop so ?acc ct = Some ptc"
     "mset (map snd ptc) = mset (map snd ?acc) + mset (map (\<lambda>(vs, c). (vs, total_count c)) ct)"
    using Cons.IH[of ?acc] Cons.prems by auto
  have "mset (map snd ?acc) = add_mset (vs, total_count c) (mset (map snd acc))"
    by (simp add: multimap_insert_mset)
  then show ?case using ptc t by (simp add: r Let_def)
qed

lemma clause_loop_take:
  assumes "a + sum_list (map (\<lambda>e. snd (snd e)) L) < 2 ^ 32"
  shows "\<exists>k \<le> length L. clause_loop rnd u m a cl L = cl @ map clause_of (take k L) \<and>
      (activation_reached rnd u m (a + sum_list (map (\<lambda>e. snd (snd e)) (take k L)))
       \<or> k = length L)"
  using assms
proof (induction L arbitrary: a cl)
  case Nil
  then show ?case by simp
next
  case (Cons e L)
  obtain p vs t where e: "e = (p, vs, t)" by (cases e)
  have at: "unsigned_plus a t = a + t" using Cons.prems by (intro unsigned_plus_eq) (simp add: e)
  show ?case
  proof (cases "activation_reached rnd u m (a + t)")
    case True
    have "clause_loop rnd u m a cl (e # L) = cl @ map clause_of (take 1 (e # L))"
      using True by (simp add: e clause_of_def Let_def at)
    moreover have "activation_reached rnd u m (a + sum_list (map (\<lambda>e. snd (snd e)) (take 1 (e # L))))"
      using True by (simp add: e)
    ultimately show ?thesis by (intro exI[of _ 1]) simp
  next
    case False
    have "(a + t) + sum_list (map (\<lambda>e. snd (snd e)) L) < 2 ^ 32" using Cons.prems by (simp add: e)
    then obtain k where k: "k \<le> length L"
      "clause_loop rnd u m (a + t) (cl @ [clause_of e]) L = (cl @ [clause_of e]) @ map clause_of (take k L)"
      "activation_reached rnd u m ((a + t) + sum_list (map (\<lambda>e. snd (snd e)) (take k L))) \<or> k = length L"
      using Cons.IH[of "a + t" "cl @ [clause_of e]"] by blast
    have "clause_loop rnd u m a cl (e # L) = cl @ map clause_of (take (Suc k) (e # L))"
      using False k(2) by (simp add: e clause_of_def Let_def at)
    moreover have "activation_reached rnd u m (a + sum_list (map (\<lambda>e. snd (snd e)) (take (Suc k) (e # L)))) \<or> Suc k = length (e # L)"
      using k(3) by (simp add: e add.assoc)
    ultimately show ?thesis using k(1) by (intro exI[of _ "Suc k"]) simp
  qed
qed

lemma literals_defined:
  assumes "k + length xs \<le> length vs" "boolean_inputs vs"
  shows "\<forall>l \<in> set (literals (int k + 1) xs). eval_formula vs l \<noteq> None"
  using assms
proof (induction xs arbitrary: k)
  case Nil
  then show ?case by simp
next
  case (Cons x xs)
  have k: "k < length vs" using Cons.prems by simp
  then have b: "vs ! k = logical_true \<or> vs ! k = logical_false"
    using Cons.prems(2) by (simp add: boolean_inputs_def)
  have "\<forall>l \<in> set (literals (int (Suc k) + 1) xs). eval_formula vs l \<noteq> None"
    using Cons.IH[of "Suc k"] Cons.prems by simp
  moreover have "int (Suc k) + 1 = int k + 1 + 1" by simp
  moreover have "eval_formula vs (Node (argument (if x = logical_true then int k + 1 else - (int k + 1))) []) \<noteq> None"
    using k b by (auto simp: nat_add_distrib)
  ultimately show ?case by simp
qed

lemma literals_own:
  assumes "drop k vs = xs" "boolean_inputs vs"
  shows "\<forall>l \<in> set (literals (int k + 1) xs). eval_formula vs l = Some logical_true"
  using assms
proof (induction xs arbitrary: k)
  case Nil
  then show ?case by simp
next
  case (Cons x xs)
  have k: "k < length vs" using Cons.prems(1) by (cases "k < length vs") auto
  have "vs ! k # drop (Suc k) vs = x # xs"
    using Cons_nth_drop_Suc[OF k] Cons.prems(1) by simp
  then have x: "vs ! k = x" and d: "drop (Suc k) vs = xs" by simp_all
  have b: "x = logical_true \<or> x = logical_false"
    using Cons.prems(2) k x by (auto simp: boolean_inputs_def)
  have "\<forall>l \<in> set (literals (int (Suc k) + 1) xs). eval_formula vs l = Some logical_true"
    using Cons.IH[OF d Cons.prems(2)] .
  moreover have "int (Suc k) + 1 = int k + 1 + 1" by simp
  moreover have "eval_formula vs (Node (argument (if x = logical_true then int k + 1 else - (int k + 1))) []) = Some logical_true"
    using k b x by (auto simp: nat_add_distrib)
  ultimately show ?case by simp
qed

lemma literals_true_imp_eq:
  assumes "\<forall>l \<in> set (literals (int k + 1) xs). eval_formula vs l = Some logical_true"
    and "k + length xs = length vs" "boolean_inputs vs" "boolean_inputs xs"
  shows "drop k vs = xs"
  using assms
proof (induction xs arbitrary: k)
  case Nil
  then show ?case by simp
next
  case (Cons x xs)
  have k: "k < length vs" using Cons.prems(2) by simp
  have bv: "vs ! k = logical_true \<or> vs ! k = logical_false"
    using Cons.prems(3) k by (simp add: boolean_inputs_def)
  have bx: "x = logical_true \<or> x = logical_false" and bxs: "boolean_inputs xs"
    using Cons.prems(4) by (simp_all add: boolean_inputs_def)
  have e: "int (Suc k) + 1 = int k + 1 + 1" by simp
  have hd: "eval_formula vs (Node (argument (if x = logical_true then int k + 1 else - (int k + 1))) []) = Some logical_true"
    and tl: "\<forall>l \<in> set (literals (int (Suc k) + 1) xs). eval_formula vs l = Some logical_true"
    using Cons.prems(1) unfolding e by simp_all
  have "vs ! k = x" using hd k bv bx by (auto simp: nat_add_distrib split: if_splits)
  moreover have "drop (Suc k) vs = xs"
    using Cons.IH[OF tl _ Cons.prems(3) bxs] Cons.prems(2) by simp
  ultimately show ?case using Cons_nth_drop_Suc[OF k] by simp
qed

lemma clause_defined:
  assumes "length r \<le> length vs" "boolean_inputs vs"
  shows "eval_formula vs (Node logical_and (literals 1 r)) \<noteq> None"
  using literals_defined[of 0 r vs] assms by (auto simp: Let_def)

lemma clause_own:
  assumes "boolean_inputs vs"
  shows "eval_formula vs (Node logical_and (literals 1 vs)) = Some logical_true"
proof -
  have a: "\<forall>l \<in> set (literals 1 vs). eval_formula vs l = Some logical_true"
    using literals_own[of 0 vs vs] assms by simp
  then have "None \<notin> eval_formula vs ` set (literals 1 vs)" by force
  then show ?thesis using a by (auto simp: Let_def)
qed

lemma clause_other:
  assumes "length r = length vs" "boolean_inputs vs" "boolean_inputs r" "r \<noteq> vs"
  shows "eval_formula vs (Node logical_and (literals 1 r)) \<noteq> Some logical_true"
proof
  assume t: "eval_formula vs (Node logical_and (literals 1 r)) = Some logical_true"
  have "\<forall>l \<in> set (literals 1 r). eval_formula vs l = Some logical_true"
    using t by (auto simp: Let_def split: if_splits)
  then have "drop 0 vs = r"
    using literals_true_imp_eq[of 0 r vs] assms by simp
  then show False using assms(4) by simp
qed

lemma disjunction_true:
  assumes "\<forall>cl \<in> set cls. eval_formula vs cl \<noteq> None"
    and "\<exists>cl \<in> set cls. eval_formula vs cl = Some logical_true"
  shows "eval_binding vs (Node logical_or cls) = logical_true"
proof -
  have "None \<notin> eval_formula vs ` set cls" using assms(1) by force
  moreover have "Some logical_true \<in> eval_formula vs ` set cls" using assms(2) by force
  ultimately show ?thesis by (simp add: eval_binding_def Let_def)
qed

lemma disjunction_not_true:
  assumes "\<forall>cl \<in> set cls. eval_formula vs cl \<noteq> Some logical_true"
  shows "eval_binding vs (Node logical_or cls) \<noteq> logical_true"
proof -
  have "Some logical_true \<notin> eval_formula vs ` set cls" using assms by force
  then show ?thesis by (simp add: eval_binding_def Let_def)
qed

lemma active_loop_active:
  assumes "a + sum_list (map (\<lambda>(vs, c). total_count c) ct) < 2 ^ 32"
  shows "fst (active_loop ev s tr (a, sao, wd) ct) =
     a + sum_list (map (\<lambda>(vs, c). total_count c) (filter (\<lambda>(vs, c). ev vs tr = logical_true) ct))"
  using assms
proof (induction ct arbitrary: a sao wd)
  case Nil
  then show ?case by simp
next
  case (Cons r ct)
  obtain vs c where r: "r = (vs, c)" by (cases r)
  show ?case
  proof (cases "ev vs tr = logical_true")
    case True
    have u: "unsigned_plus a (total_count c) = a + total_count c"
      using Cons.prems by (intro unsigned_plus_eq) (simp add: r)
    have "(a + total_count c) + sum_list (map (\<lambda>(vs, c). total_count c) ct) < 2 ^ 32"
      using Cons.prems by (simp add: r)
    from Cons.IH[OF this] show ?thesis using True by (simp add: r Let_def u)
  next
    case False
    have "a + sum_list (map (\<lambda>(vs, c). total_count c) ct) < 2 ^ 32"
      using Cons.prems by (simp add: r)
    from Cons.IH[OF this] show ?thesis using False by (simp add: r)
  qed
qed

lemma active_sum_mset:
  "sum_mset (image_mset snd (filter_mset (\<lambda>(vs, t). ev vs tr = logical_true)
       (mset (map (\<lambda>(vs, c). (vs, total_count c)) ct)))) =
   sum_list (map (\<lambda>(vs, c). total_count c) (filter (\<lambda>(vs, c). ev vs tr = logical_true) ct))"
  by (induction ct) auto

lemma uncompressed_size_sum_mset:
  "sum_mset (image_mset snd (mset (map (\<lambda>(vs, c). (vs, total_count c)) ct))) = uncompressed_size ct"
  unfolding uncompressed_size_def by (induction ct) auto

text \<open>In a multiset of rows with distinct keys, a part of it is the whole of the rows with
  its keys.\<close>

lemma distinct_keys_filter:
  fixes A M :: "('k \<times> 'v) multiset"
  assumes "A \<subseteq># M" and d: "\<forall>k. Multiset.count (image_mset fst M) k \<le> 1"
  shows "filter_mset (\<lambda>r. fst r \<in> fst ` set_mset A) M = A"
proof -
  obtain C where M: "M = A + C" using assms(1) by (auto simp: mset_subset_eq_exists_conv)
  have "filter_mset (\<lambda>r. fst r \<in> fst ` set_mset A) C = {#}"
  proof (rule ccontr)
    assume "filter_mset (\<lambda>r. fst r \<in> fst ` set_mset A) C \<noteq> {#}"
    then have "\<exists>r. r \<in># C \<and> fst r \<in> fst ` set_mset A"
      by (simp only: filter_mset_eq_mempty_iff) blast
    then obtain r where r: "r \<in># C" "fst r \<in> fst ` set_mset A"
      by blast
    then have "fst r \<in># image_mset fst A" "fst r \<in># image_mset fst C" by auto
    then have c: "1 \<le> Multiset.count (image_mset fst A) (fst r)"
        "1 \<le> Multiset.count (image_mset fst C) (fst r)"
      by (simp_all add: Suc_le_eq)
    have "Multiset.count (image_mset fst M) (fst r) =
        Multiset.count (image_mset fst A) (fst r) + Multiset.count (image_mset fst C) (fst r)"
      unfolding M by simp
    then have "2 \<le> Multiset.count (image_mset fst M) (fst r)" using c by linarith
    then show False using d[rule_format, of "fst r"] by linarith
  qed
  moreover have "filter_mset (\<lambda>r. fst r \<in> fst ` set_mset A) A = A"
    by (intro filter_mset_eq_conv[THEN iffD2]) auto
  ultimately show ?thesis unfolding M by simp
qed


lemma float_round_binade:
  assumes "2 powr (of_int e) \<le> \<bar>x\<bar>" and "\<bar>x\<bar> < 2 powr (of_int e + 1)" and "- 126 \<le> e"
  shows "float_round x =
     2 powr (of_int e - 23) * of_int (round_nearest_even (x / 2 powr (of_int e - 23)))"
proof -
  have "0 < 2 powr (real_of_int e)" by simp
  then have pos: "0 < \<bar>x\<bar>" using assms(1) by linarith
  have "of_int e \<le> log 2 \<bar>x\<bar>" using assms(1) pos by (simp add: le_log_iff)
  moreover have "log 2 \<bar>x\<bar> < of_int e + 1" using assms(2) pos by (simp add: log_less_iff)
  ultimately have "\<lfloor>log 2 \<bar>x\<bar>\<rfloor> = e" by (simp add: floor_eq_iff)
  then show ?thesis using pos assms(3) by (simp add: float_round_def Let_def max_def)
qed

lemma float_round_values:
  "float_round 3 = 3" "float_round 1 = 1" "float_round (3 * (11184811 / 33554432)) = 1"
  using float_round_binade[of 1 3] float_round_binade[of 0 1]
    float_round_binade[of 0 "3 * (11184811 / 33554432)"]
  by (simp_all add: round_nearest_even_def powr_minus Let_def)

lemma activation_reached_third:
  "activation_reached float_round 3 (11184811 / 33554432) (Suc 0)"
  using float_round_values by (simp add: activation_reached_def)

text \<open>
  Claim C7, as amended. For a precision scorer with
  \<open>0 < min_activation \<le> max_activation \<le> 1\<close> over a non-empty table of fewer than
  \<open>2\<^sup>3\<^sup>2\<close> observations, whose rows have distinct boolean input vectors of one arity
  and a positive total count, \<open>gen_canonical_best_candidate()\<close> returns a candidate, and
  the total count of the rows on which this candidate is true, the number \<open>active\<close> that
  \<open>operator()\<close> computes for it, passes the test of the loop as the loop makes it, in
  floating point: the rounded product \<open>ctable_usize * min_activation\<close> is at most
  \<open>active\<close>; or else the candidate is true on every row. This holds for every rounding.
\<close>

theorem gen_canonical_best_candidate_activation:
  assumes "0 < min_activation s" and "min_activation s \<le> max_activation s"
    and "max_activation s \<le> 1"
    and usize: "ctable_usize s = uncompressed_size (ctable s)"
    and small: "uncompressed_size (ctable s) < 2 ^ 32"
    and nonempty: "ctable s \<noteq> []"
    and keys: "distinct (map fst (ctable s))"
    and rows: "\<forall>(vs, c) \<in> set (ctable s).
                 total_count c \<noteq> 0 \<and> length vs = arity \<and> boolean_inputs vs"
  shows "\<exists>tr. gen_canonical_best_candidate rnd s = Some tr \<and>
     (activation_reached rnd (ctable_usize s) (min_activation s)
        (fst (active_loop eval_binding s tr (0, 0, []) (ctable s)))
      \<or> fst (active_loop eval_binding s tr (0, 0, []) (ctable s)) = ctable_usize s)"
proof -
  let ?ct = "ctable s"
  let ?M = "mset (map (\<lambda>(vs, c). (vs, total_count c)) ?ct)"
  let ?u = "ctable_usize s" and ?m = "min_activation s"
  have "\<forall>(vs, c) \<in> set ?ct. total_count c \<noteq> 0" using rows by auto
  then obtain ptc where ptc: "ptc_loop (sum_outputs s) [] ?ct = Some ptc"
      and M: "mset (map snd ptc) = ?M"
    using ptc_loop_Some[of ?ct "sum_outputs s" "[]"] by auto
  have sumL: "sum_list (map (\<lambda>e. snd (snd e)) xs) = sum_mset (image_mset snd (mset (map snd xs)))"
    for xs :: "(real \<times> vertex_seq \<times> nat) list"
    by (simp add: sum_mset_sum_list[symmetric] image_mset.compositionality comp_def
          del: sum_mset_sum_list)
  have "mset (map snd (rev ptc)) = ?M" using M by simp
  then have "sum_list (map (\<lambda>e. snd (snd e)) (rev ptc)) = uncompressed_size ?ct"
    unfolding sumL by (simp only: uncompressed_size_sum_mset)
  then have "0 + sum_list (map (\<lambda>e. snd (snd e)) (rev ptc)) < 2 ^ 32" using small by simp
  from clause_loop_take[OF this, of rnd ?u ?m "[]"]
  obtain k where k: "k \<le> length (rev ptc)"
      and cl: "clause_loop rnd ?u ?m 0 [] (rev ptc) = map clause_of (take k (rev ptc))"
      and stop: "activation_reached rnd ?u ?m (sum_list (map (\<lambda>e. snd (snd e)) (take k (rev ptc))))
                 \<or> k = length (rev ptc)"
    by auto
  let ?P = "take k (rev ptc)"
  let ?A = "mset (map snd ?P)"
  let ?tr = "Node logical_or (map clause_of ?P)"
  have gen: "gen_canonical_best_candidate rnd s = Some ?tr"
    by (simp add: gen_canonical_best_candidate_def ptc cl)
  have sub: "?A \<subseteq># ?M"
  proof -
    have "mset ?P \<subseteq># mset (rev ptc)"
      by (metis append_take_drop_id mset_append mset_subset_eq_add_left)
    then have "image_mset snd (mset ?P) \<subseteq># image_mset snd (mset (rev ptc))"
      by (rule image_mset_subseteq_mono)
    then show ?thesis using M by simp
  qed
  have inrows: "length r = arity \<and> boolean_inputs r" if "e \<in> set ?P" "r = fst (snd e)" for e r
  proof -
    have "snd e \<in># ?A" using that(1) by simp
    then have "snd e \<in># ?M" using sub by (rule mset_subset_eqD[rotated])
    then obtain vs c where "(vs, c) \<in> set ?ct" "snd e = (vs, total_count c)" by auto
    then show ?thesis using rows that(2) by auto
  qed
  have true: "eval_binding (fst (snd e)) ?tr = logical_true" if e: "e \<in> set ?P" for e
  proof (rule disjunction_true)
    let ?vs = "fst (snd e)"
    have vs: "length ?vs = arity" "boolean_inputs ?vs" using inrows[OF e refl] by simp_all
    show "\<forall>cl \<in> set (map clause_of ?P). eval_formula ?vs cl \<noteq> None"
    proof
      fix cl assume "cl \<in> set (map clause_of ?P)"
      then obtain e' where e': "e' \<in> set ?P" "cl = clause_of e'" by auto
      have "length (fst (snd e')) \<le> length ?vs" using inrows[OF e'(1) refl] vs by simp
      then show "eval_formula ?vs cl \<noteq> None"
        unfolding e'(2) clause_of_def using vs(2) by (rule clause_defined)
    qed
    have "eval_formula ?vs (clause_of e) = Some logical_true"
      unfolding clause_of_def using vs(2) by (rule clause_own)
    then show "\<exists>cl \<in> set (map clause_of ?P). eval_formula ?vs cl = Some logical_true"
      using e by auto
  qed
  have other: "eval_binding vs ?tr \<noteq> logical_true"
    if row: "(vs, c) \<in> set ?ct" and notin: "vs \<notin> fst ` set_mset ?A" for vs c
  proof (rule disjunction_not_true, rule ballI)
    fix cl assume "cl \<in> set (map clause_of ?P)"
    then obtain e where e: "e \<in> set ?P" "cl = clause_of e" by auto
    have vs: "length vs = arity" "boolean_inputs vs" using rows row by auto
    have r: "length (fst (snd e)) = arity" "boolean_inputs (fst (snd e))"
      using inrows[OF e(1) refl] by simp_all
    have "fst (snd e) \<in> fst ` set_mset ?A" using e(1) by force
    then have "fst (snd e) \<noteq> vs" using notin by auto
    then show "eval_formula vs cl \<noteq> Some logical_true"
      unfolding e(2) clause_of_def using vs r by (intro clause_other) simp_all
  qed
  have iff: "(eval_binding (fst r) ?tr = logical_true) = (fst r \<in> fst ` set_mset ?A)"
    if "r \<in># ?M" for r
  proof -
    from that have "r \<in> (\<lambda>(vs, c). (vs, total_count c)) ` set ?ct" by simp
    then obtain x where x: "x \<in> set ?ct" "r = (\<lambda>(vs, c). (vs, total_count c)) x" by blast
    obtain vs c where "x = (vs, c)" by (cases x)
    with x have r: "(vs, c) \<in> set ?ct" "r = (vs, total_count c)" by simp_all
    show ?thesis
    proof (cases "vs \<in> fst ` set_mset ?A")
      case True
      then obtain e where "e \<in> set ?P" "fst (snd e) = vs" by force
      then show ?thesis using true[of e] True r by simp
    next
      case False
      then show ?thesis using other[OF r(1)] r by simp
    qed
  qed
  have "image_mset fst ?M = mset (map fst ?ct)"
    by (simp add: image_mset.compositionality comp_def case_prod_beta)
  then have d: "\<forall>k. Multiset.count (image_mset fst ?M) k \<le> 1"
    using keys by (simp add: distinct_count_atmost_1)
  have "filter_mset (\<lambda>(vs, t). eval_binding vs ?tr = logical_true) ?M =
        filter_mset (\<lambda>r. fst r \<in> fst ` set_mset ?A) ?M"
    by (rule filter_mset_cong[OF refl]) (use iff in \<open>auto simp: case_prod_beta\<close>)
  also have "\<dots> = ?A" using sub d by (rule distinct_keys_filter)
  finally have filt: "filter_mset (\<lambda>(vs, t). eval_binding vs ?tr = logical_true) ?M = ?A" .
  have "0 + sum_list (map (\<lambda>(vs, c). total_count c) ?ct) < 2 ^ 32"
    using small by (simp add: uncompressed_size_def)
  from active_loop_active[OF this, of eval_binding s ?tr 0 "[]"]
  have "fst (active_loop eval_binding s ?tr (0, 0, []) ?ct) =
      sum_list (map (\<lambda>(vs, c). total_count c)
                 (filter (\<lambda>(vs, c). eval_binding vs ?tr = logical_true) ?ct))"
    by simp
  then have "fst (active_loop eval_binding s ?tr (0, 0, []) ?ct) =
          sum_mset (image_mset snd (filter_mset (\<lambda>(vs, t). eval_binding vs ?tr = logical_true) ?M))"
    by (simp only: active_sum_mset)
  then have act: "fst (active_loop eval_binding s ?tr (0, 0, []) ?ct) =
          sum_list (map (\<lambda>e. snd (snd e)) ?P)"
    unfolding filt sumL .
  have "activation_reached rnd ?u ?m (fst (active_loop eval_binding s ?tr (0, 0, []) ?ct))
      \<or> fst (active_loop eval_binding s ?tr (0, 0, []) ?ct) = ?u"
  proof (cases "k = length (rev ptc)")
    case True
    then have "?A = ?M" using M by simp
    then have "sum_list (map (\<lambda>e. snd (snd e)) ?P) = uncompressed_size ?ct"
      unfolding sumL by (simp only: uncompressed_size_sum_mset)
    then show ?thesis using act usize by simp
  next
    case False
    then show ?thesis using stop act by simp
  qed
  then show ?thesis using gen by blast
qed

lemma example_third_fields:
  "min_activation example_third_bscore = 11184811 / 33554432"
  "max_activation example_third_bscore = 3/4"
  "ctable example_third_bscore = example_three_table"
  "ctable_usize example_third_bscore = 3"
  "sum_outputs example_third_bscore = (\<lambda>c. real (get c True))"
  by (simp_all add: example_third_bscore_def precision_bscore_boolean_def
        uncompressed_size_def example_three_table_def total_count_def)

lemma example_third_candidate:
  "gen_canonical_best_candidate float_round example_third_bscore = Some example_one_clause"
  by (simp add: gen_canonical_best_candidate_def example_third_fields example_three_table_def
        total_count_def get_def Let_def unsigned_plus_eq activation_reached_third
        example_one_clause_def)

lemma example_third_active:
  "fst (active_loop eval_binding example_third_bscore example_one_clause (0, 0, [])
          (ctable example_third_bscore)) = 1"
  by (simp add: example_third_fields example_three_table_def example_one_clause_def
        eval_binding_def total_count_def unsigned_plus_eq Let_def)

theorem gen_canonical_best_candidate_activation_witness:
  "gen_canonical_best_candidate float_round example_third_bscore = Some example_one_clause
   \<and> (\<exists>tr. gen_canonical_best_candidate float_round example_third_bscore = Some tr \<and>
        (activation_reached float_round (ctable_usize example_third_bscore)
           (min_activation example_third_bscore)
           (fst (active_loop eval_binding example_third_bscore tr (0, 0, [])
                   (ctable example_third_bscore)))
         \<or> fst (active_loop eval_binding example_third_bscore tr (0, 0, [])
                   (ctable example_third_bscore)) = ctable_usize example_third_bscore))"
proof -
  note f = example_third_fields
  have h1: "0 < min_activation example_third_bscore"
    and h2: "min_activation example_third_bscore \<le> max_activation example_third_bscore"
    and h3: "max_activation example_third_bscore \<le> 1"
    and h4: "ctable_usize example_third_bscore = uncompressed_size (ctable example_third_bscore)"
    and h5: "uncompressed_size (ctable example_third_bscore) < 2 ^ 32"
    and h6: "ctable example_third_bscore \<noteq> []"
    and h7: "distinct (map fst (ctable example_third_bscore))"
    and h8: "\<forall>(vs, c) \<in> set (ctable example_third_bscore).
               total_count c \<noteq> 0 \<and> length vs = 1 \<and> boolean_inputs vs"
    by (simp_all add: f example_three_table_def total_count_def boolean_inputs_def
          uncompressed_size_def)
  show ?thesis
    using gen_canonical_best_candidate_activation [OF h1 h2 h3 h4 h5 h6 h7 h8, of float_round]
      example_third_candidate
    by simp
qed

text \<open>
  The claim as stated, with the exact product, fails. For three observations and the
  minimum activation \<open>1.0f / 3\<close>, a little above one third, the product
  \<open>3 * min_activation\<close> is a little above 1 and is rounded to \<open>1.0f\<close>: the loop stops
  after the first row, the candidate is true on one observation, and 1 is below
  \<open>ctable_usize * min_activation\<close>.
\<close>

theorem gen_canonical_best_candidate_exact_counterexample:
  "gen_canonical_best_candidate float_round example_third_bscore = Some example_one_clause
   \<and> fst (active_loop eval_binding example_third_bscore example_one_clause (0, 0, [])
             (ctable example_third_bscore)) = 1
   \<and> \<not> real (ctable_usize example_third_bscore) * min_activation example_third_bscore
         \<le> real (fst (active_loop eval_binding example_third_bscore example_one_clause (0, 0, [])
                         (ctable example_third_bscore)))"
  by (simp add: example_third_candidate example_third_active)
     (simp add: example_third_fields)

section \<open>\<open>interesting_predicate_bscore\<close>: properties\<close>

lemma map_assign_keys: "fst ` set (map_assign k n m) = insert k (fst ` set m)"
  by (induction k n m rule: map_assign.induct) auto

lemma map_assign_sorted:
  "sorted_wrt (<) (map fst m) \<Longrightarrow> sorted_wrt (<) (map fst (map_assign k n m))"
proof (induction k n m rule: map_assign.induct)
  case (1 k n)
  then show ?case by simp
next
  case (2 k n k' n' m)
  have keys: "fst ` set (map_assign k n m) = insert k (fst ` set m)" by (rule map_assign_keys)
  show ?case
  proof (cases "k = k'")
    case True
    then show ?thesis using 2 by simp
  next
    case False
    show ?thesis
    proof (cases "k < k'")
      case True
      then show ?thesis using 2 False by (auto simp: less_trans)
    next
      case F2: False
      then have "k' < k" using False by simp
      moreover have "\<forall>x \<in> fst ` set (map_assign k n m). k' < x"
        unfolding keys using "2.prems" \<open>k' < k\<close> by auto
      ultimately show ?thesis using 2 False F2 by auto
    qed
  qed
qed

lemma row_assign_keys:
  "fst ` set (foldl (\<lambda>m (val, n). map_assign val n m) m c) = fst ` set m \<union> fst ` set c"
proof (induction c arbitrary: m)
  case Nil
  then show ?case by simp
next
  case (Cons e c)
  obtain val n where e: "e = (val, n)" by (cases e)
  show ?case unfolding e by (simp add: Cons.IH map_assign_keys)
qed

lemma row_assign_sorted:
  "sorted_wrt (<) (map fst m) \<Longrightarrow>
   sorted_wrt (<) (map fst (foldl (\<lambda>m (val, n). map_assign val n m) m c))"
proof (induction c arbitrary: m)
  case Nil
  then show ?case by simp
next
  case (Cons e c)
  obtain val n where e: "e = (val, n)" by (cases e)
  show ?case unfolding e using Cons.prems by (simp add: Cons.IH map_assign_sorted)
qed

lemma pred_counter_loop_keys:
  "fst ` set (pred_counter_loop target m (zip (map snd ct) (pred_ot_of ev tr ct))) =
   fst ` set m \<union> set (concat (map (map fst) (active_rows ev target ct tr)))"
proof (induction ct arbitrary: m)
  case Nil
  then show ?case by (simp add: pred_ot_of_def active_rows_def)
next
  case (Cons r ct)
  obtain vs c where r: "r = (vs, c)" by (cases r)
  have *: "pred_ot_of ev tr ((vs, c) # ct) = ev vs tr # pred_ot_of ev tr ct"
    by (simp add: pred_ot_of_def)
  have **: "active_rows ev target ((vs, c) # ct) tr =
     (if ev vs tr = target then c # active_rows ev target ct tr else active_rows ev target ct tr)"
    by (simp add: active_rows_def)
  show ?case
  proof (cases "ev vs tr = target")
    case True
    then show ?thesis unfolding r by (simp add: * ** Cons.IH row_assign_keys Un_assoc)
  next
    case False
    then show ?thesis unfolding r by (simp add: * ** Cons.IH)
  qed
qed

lemma pred_counter_loop_sorted:
  "sorted_wrt (<) (map fst m) \<Longrightarrow>
   sorted_wrt (<) (map fst (pred_counter_loop target m rows))"
  by (induction target m rows rule: pred_counter_loop.induct) (auto simp: row_assign_sorted)

lemma length_pred_counter_of:
  "length (pred_counter_of ev target ct tr) = length (active_values ev target ct tr)"
proof -
  let ?pc = "pred_counter_of ev target ct tr"
  have "sorted_wrt (<) (map fst ?pc)"
    unfolding pred_counter_of_def by (rule pred_counter_loop_sorted) simp
  then have "distinct (map fst ?pc)" by (simp add: strict_sorted_iff)
  then have "length ?pc = card (fst ` set ?pc)" using distinct_card[of "map fst ?pc"] by simp
  also have "\<dots> = card (set (concat (map (map fst) (active_rows ev target ct tr))))"
    by (simp add: pred_counter_of_def pred_counter_loop_keys)
  also have "\<dots> = length (active_values ev target ct tr)"
    by (simp add: active_values_def length_remdups_card_conv)
  finally show ?thesis .
qed

text \<open>
  Claim C6. When the active rows of a candidate hold at most one distinct output value,
  \<open>interesting_predicate_bscore::operator()\<close> returns the single component
  \<open>worst_score\<close> and no complexity penalty, whatever the weights are.
\<close>

theorem interesting_predicate_degenerate:
  assumes "length (active_values ev (bool_to_vertex (ip_positive s)) (ip_ctable s) tr) \<le> 1"
  shows "interesting_predicate_bscore_operator ext ev tc s tr = ([Fin (worst_score ext)], Fin 0)"
  using assms
  by (simp add: interesting_predicate_bscore_operator_def Let_def length_pred_counter_of split: prod.splits)

theorem interesting_predicate_degenerate_witness:
  "interesting_predicate_bscore_operator example_collaborators eval_binding vertex_count
     example_interesting_predicate_bscore always_true = ([Fin (- 1)], Fin 0)"
proof -
  have "length (active_values eval_binding
           (bool_to_vertex (ip_positive example_interesting_predicate_bscore))
           (ip_ctable example_interesting_predicate_bscore) always_true) \<le> 1"
    by (simp add: example_interesting_predicate_bscore_def interesting_predicate_bscore_init_def
          Let_def example_contin_table_def active_values_def active_rows_def bool_to_vertex_def
          eval_binding_def always_true_def)
  from interesting_predicate_degenerate [OF this, of example_collaborators vertex_count]
  show ?thesis by (simp add: example_collaborators_def)
qed

text \<open>
  Claim C3. The conditioned count of an output value should be the sum of its counts over
  all active rows, as the unconditioned histogram of the constructor is. For a candidate
  that is active on two rows with the output 1, seen 2 and 3 times, the constructor counts
  5, and the conditioned histogram, which assigns instead of adding, holds the count of
  the last row, 3.
\<close>

theorem pred_counter_overwrites:
  "pred_counter_of eval_binding logical_true example_contin_table always_true = [(1, 3)]
   \<and> spec_conditioned_count eval_binding logical_true example_contin_table always_true 1 = 5
   \<and> accumulate_counter example_contin_table = [(1, 5)]"
  by (simp add: pred_counter_of_def pred_ot_of_def eval_binding_def spec_conditioned_count_def
        active_rows_def get_def accumulate_counter_def accumulate_row_def
        example_contin_table_def always_true_def)

end
